theory Spec2Isabelle
  imports Main
begin

section \<open>Strings\<close>

text \<open>
  The notes component works on JavaScript strings.  A body is modelled as a \<^typ>\<open>string\<close>,
  one \<^typ>\<open>char\<close> per code unit; the code units below 256 are the ones a \<^typ>\<open>char\<close> can
  hold.  Nothing in the codec looks at a code unit except to compare it with the ASCII
  characters of \<^verbatim>\<open>[IMAGE:\<close>, with \<^verbatim>\<open>]\<close>, with \<^verbatim>\<open>|\<close> and with the white space that
  \<^verbatim>\<open>String.prototype.trim\<close> removes.
\<close>

text \<open>White space and line terminators of ECMAScript that fit a \<^typ>\<open>char\<close>:
  TAB, LF, VT, FF, CR, SPACE and NBSP.\<close>

definition is_js_whitespace :: "char \<Rightarrow> bool" where
  "is_js_whitespace c \<longleftrightarrow>
     c \<in> set [CHR 0x09, CHR 0x0A, CHR 0x0B, CHR 0x0C, CHR 0x0D, CHR 0x20, CHR 0xA0]"

text \<open>\<^verbatim>\<open>s.trim()\<close>: white space is removed at both ends.\<close>

definition trim :: "string \<Rightarrow> string" where
  "trim s = rev (dropWhile is_js_whitespace (rev (dropWhile is_js_whitespace s)))"

section \<open>Placeholder codec of QuestionNotes\<close>

text \<open>
  \<^verbatim>\<open>/\[IMAGE:([^\]]+)\]/\<close> tried at the head of a string: the literal \<^verbatim>\<open>[IMAGE:\<close>, the
  longest run of characters other than \<^verbatim>\<open>]\<close> (the class excludes the only character that may
  follow the group, so no shorter run can match), which must not be empty, and a closing
  \<^verbatim>\<open>]\<close>.  The result is the captured id and the text after the match.
\<close>

definition match_image :: "string \<Rightarrow> (string \<times> string) option" where
  "match_image s =
     (if take 7 s = ''[IMAGE:'' then
        (let body = drop 7 s;
             ident = takeWhile (\<lambda>c. c \<noteq> CHR '']'') body;
             rest = dropWhile (\<lambda>c. c \<noteq> CHR '']'') body
         in if ident \<noteq> [] \<and> rest \<noteq> [] then Some (ident, tl rest) else None)
      else None)"

text \<open>
  \<^verbatim>\<open>extractImageIds\<close>: the \<^verbatim>\<open>exec\<close> loop of the global regular expression.  A match is
  looked for at the current position, then one character further; after a match the scan
  resumes behind it.
\<close>

function extractImageIds :: "string \<Rightarrow> string list" where
  "extractImageIds [] = []"
| "extractImageIds (c # cs) =
     (case match_image (c # cs) of
        Some (imageId, rest) \<Rightarrow> imageId # extractImageIds rest
      | None \<Rightarrow> extractImageIds cs)"
  by pat_completeness auto
termination
proof (relation "measure length")
  fix c cs p imageId rest
  assume m: "match_image (c # cs) = Some p" and p: "(imageId, rest) = p"
  let ?b = "drop 7 (c # cs)"
  from m p have r: "rest = tl (dropWhile (\<lambda>c. c \<noteq> CHR '']'') ?b)"
    and ne: "dropWhile (\<lambda>c. c \<noteq> CHR '']'') ?b \<noteq> []"
    by (auto simp: match_image_def Let_def split: if_splits)
  have "length (dropWhile (\<lambda>c. c \<noteq> CHR '']'') ?b) \<le> length ?b"
    by (rule length_dropWhile_le)
  with ne r have "length rest < length ?b"
    by (cases "dropWhile (\<lambda>c. c \<noteq> CHR '']'') ?b") auto
  then show "(rest, c # cs) \<in> measure length" by simp
qed auto

text \<open>\<^verbatim>\<open>content.replace(/\[IMAGE:[^\]]+\]/g, '')\<close>: every match of the same scan is deleted.\<close>

function replace_image_tokens :: "string \<Rightarrow> string" where
  "replace_image_tokens [] = []"
| "replace_image_tokens (c # cs) =
     (case match_image (c # cs) of
        Some (imageId, rest) \<Rightarrow> replace_image_tokens rest
      | None \<Rightarrow> c # replace_image_tokens cs)"
  by pat_completeness auto
termination
proof (relation "measure length")
  fix c cs p imageId rest
  assume m: "match_image (c # cs) = Some p" and p: "(imageId, rest) = p"
  let ?b = "drop 7 (c # cs)"
  from m p have r: "rest = tl (dropWhile (\<lambda>c. c \<noteq> CHR '']'') ?b)"
    and ne: "dropWhile (\<lambda>c. c \<noteq> CHR '']'') ?b \<noteq> []"
    by (auto simp: match_image_def Let_def split: if_splits)
  have "length (dropWhile (\<lambda>c. c \<noteq> CHR '']'') ?b) \<le> length ?b"
    by (rule length_dropWhile_le)
  with ne r have "length rest < length ?b"
    by (cases "dropWhile (\<lambda>c. c \<noteq> CHR '']'') ?b") auto
  then show "(rest, c # cs) \<in> measure length" by simp
qed auto

text \<open>The text of a current-format token.\<close>

definition image_tag :: "string \<Rightarrow> string" where
  "image_tag imageId = ''[IMAGE:'' @ imageId @ '']''"

text \<open>
  \<^verbatim>\<open>s.replace(new RegExp(`\\[IMAGE:${escaped id}\\]`, 'g'), '')\<close>.  The id is escaped
  character by character (every metacharacter of a regular expression gets a backslash), so
  the expression matches the literal text of the token and nothing else: each occurrence met
  by the left-to-right scan is deleted, and the scan resumes behind it.
\<close>

function replace_image_tag :: "string \<Rightarrow> string \<Rightarrow> string" where
  "replace_image_tag imageId [] = []"
| "replace_image_tag imageId (c # cs) =
     (if take (length (image_tag imageId)) (c # cs) = image_tag imageId
      then replace_image_tag imageId (drop (length (image_tag imageId)) (c # cs))
      else c # replace_image_tag imageId cs)"
  by pat_completeness auto
termination
  by (relation "measure (\<lambda>(i, s). length s)") (auto simp: image_tag_def)

text \<open>
  \<^verbatim>\<open>cleanOrphanedImages\<close>.  With no URL every match is deleted and the result is returned
  as it is.  Otherwise the ids are extracted, and for each index that has no URL the tokens
  of the id at that index are deleted from the text cleaned so far; the result is trimmed.
\<close>

definition cleanOrphanedImages :: "string \<Rightarrow> string list \<Rightarrow> string" where
  "cleanOrphanedImages content availableImageUrls =
     (if length availableImageUrls = 0 then replace_image_tokens content
      else
        (let contentImageIds = extractImageIds content;
             cleanedContent =
               fold (\<lambda>(imageId, index) cleaned.
                       if index \<ge> length availableImageUrls
                       then replace_image_tag imageId cleaned else cleaned)
                    (zip contentImageIds [0 ..< length contentImageIds]) content
         in trim cleanedContent))"

text \<open>
  The variable \<^verbatim>\<open>cleanedContent\<close> of that function as it stands at line 89, before it is
  trimmed: the content after the loop of lines 81 to 87, which is reached with at least
  one URL.
\<close>

definition cleanedContent :: "string \<Rightarrow> string list \<Rightarrow> string" where
  "cleanedContent content availableImageUrls =
     fold (\<lambda>(imageId, index) cleaned.
             if index \<ge> length availableImageUrls
             then replace_image_tag imageId cleaned else cleaned)
          (zip (extractImageIds content) [0 ..< length (extractImageIds content)]) content"

section \<open>Image records and the legacy migration of RichTextInput\<close>

text \<open>\<^verbatim>\<open>interface ImageData { id: string; url: string; description: string }\<close>\<close>

record ImageData =
  id' :: string
  url :: string
  description :: string

text \<open>
  \<^verbatim>\<open>/\[IMAGE:([^|]+)\|([^\]]+)\]/\<close> tried at the head of a string: the literal
  \<^verbatim>\<open>[IMAGE:\<close>, a non-empty run of characters other than \<^verbatim>\<open>|\<close> (a \<^verbatim>\<open>]\<close> is allowed in it),
  a \<^verbatim>\<open>|\<close>, a non-empty run of characters other than \<^verbatim>\<open>]\<close>, and a closing \<^verbatim>\<open>]\<close>.  The
  result is the two captured groups and the text after the match.
\<close>

definition match_legacy :: "string \<Rightarrow> (string \<times> string \<times> string) option" where
  "match_legacy s =
     (if take 7 s = ''[IMAGE:'' then
        (let body = drop 7 s;
             urlRaw = takeWhile (\<lambda>c. c \<noteq> CHR ''|'') body;
             rest1 = dropWhile (\<lambda>c. c \<noteq> CHR ''|'') body
         in if urlRaw \<noteq> [] \<and> rest1 \<noteq> [] then
              (let body2 = tl rest1;
                   descRaw = takeWhile (\<lambda>c. c \<noteq> CHR '']'') body2;
                   rest2 = dropWhile (\<lambda>c. c \<noteq> CHR '']'') body2
               in if descRaw \<noteq> [] \<and> rest2 \<noteq> [] then Some (urlRaw, descRaw, tl rest2)
                  else None)
            else None)
      else None)"

text \<open>\<^verbatim>\<open>legacyRegex.test(value)\<close> on a fresh expression: is there a match anywhere?\<close>

fun test_legacy :: "string \<Rightarrow> bool" where
  "test_legacy [] = False"
| "test_legacy (c # cs) = (match_legacy (c # cs) \<noteq> None \<or> test_legacy cs)"

text \<open>
  \<^verbatim>\<open>working.replace(legacyRegex, callback)\<close>.  The callback looks the trimmed URL up in
  \<^verbatim>\<open>newImages\<close> and appends a new record when there is none.  \<^verbatim>\<open>generateImageId\<close> reads
  the clock and a random number; the ids it returns are an input of the model: \<open>gen k\<close> is
  the id returned by call number \<open>k\<close>.  \<open>out\<close> is the text produced so far.
\<close>

function legacy_replace ::
  "(nat \<Rightarrow> string) \<Rightarrow> nat \<Rightarrow> ImageData list \<Rightarrow> string \<Rightarrow> string \<Rightarrow> string \<times> ImageData list"
where
  "legacy_replace gen k newImages out [] = (out, newImages)"
| "legacy_replace gen k newImages out (c # cs) =
     (case match_legacy (c # cs) of
        None \<Rightarrow> legacy_replace gen k newImages (out @ [c]) cs
      | Some (urlRaw, descRaw, rest) \<Rightarrow>
          (case find (\<lambda>img. url img = trim urlRaw) newImages of
             Some existing \<Rightarrow>
               legacy_replace gen k newImages (out @ image_tag (id' existing)) rest
           | None \<Rightarrow>
               legacy_replace gen (Suc k)
                 (newImages @ [\<lparr>id' = gen k, url = trim urlRaw, description = trim descRaw\<rparr>])
                 (out @ image_tag (gen k)) rest))"
  by pat_completeness auto
termination
proof -
  have shorter: "length r < length s" if "match_legacy s = Some (u, d, r)" for s u d r
  proof -
    let ?b = "drop 7 s"
    let ?b2 = "tl (dropWhile (\<lambda>c. c \<noteq> CHR ''|'') ?b)"
    from that have r: "r = tl (dropWhile (\<lambda>c. c \<noteq> CHR '']'') ?b2)"
      and ne: "dropWhile (\<lambda>c. c \<noteq> CHR '']'') ?b2 \<noteq> []"
      and ne1: "dropWhile (\<lambda>c. c \<noteq> CHR ''|'') ?b \<noteq> []"
      by (auto simp: match_legacy_def Let_def split: if_splits)
    have "length (dropWhile (\<lambda>c. c \<noteq> CHR '']'') ?b2) \<le> length ?b2"
      by (rule length_dropWhile_le)
    moreover have "length ?b2 < length (dropWhile (\<lambda>c. c \<noteq> CHR ''|'') ?b)"
      using ne1 by (cases "dropWhile (\<lambda>c. c \<noteq> CHR ''|'') ?b") auto
    moreover have "length (dropWhile (\<lambda>c. c \<noteq> CHR ''|'') ?b) \<le> length ?b"
      by (rule length_dropWhile_le)
    ultimately have "length r < length ?b"
      using ne r by (cases "dropWhile (\<lambda>c. c \<noteq> CHR '']'') ?b2") auto
    then show ?thesis by simp
  qed
  show ?thesis
    by (relation "measure (\<lambda>(gen, k, newImages, out, s). length s)")
       (auto dest: shorter)
qed

text \<open>
  The migration effect of \<^verbatim>\<open>RichTextInput\<close>.  It leaves an empty value and a value without
  a legacy placeholder alone; otherwise it replaces, and hands the new text and the new
  registry to the parent (\<^verbatim>\<open>onChange\<close>, \<^verbatim>\<open>onImagesChange\<close>) when the text has changed.  The
  result is the value and the images the parent holds afterwards.
\<close>

definition migrateLegacy ::
  "(nat \<Rightarrow> string) \<Rightarrow> string \<Rightarrow> ImageData list \<Rightarrow> string \<times> ImageData list" where
  "migrateLegacy gen v imgs =
     (if v = [] then (v, imgs)
      else if \<not> test_legacy v then (v, imgs)
      else
        (let (working, newImages) = legacy_replace gen 0 imgs [] v
         in if working \<noteq> v then (working, newImages) else (v, imgs)))"

section \<open>The QuestionNotes component\<close>

text \<open>\<^verbatim>\<open>type SaveState = 'idle' | 'saving' | 'saved' | 'error' | 'loading'\<close>\<close>

datatype SaveState = Idle | Saving | Saved | Error | Loading

text \<open>
  What \<^verbatim>\<open>JSON.parse\<close> makes of a slot of the local cache: an object whose three keys may
  each be missing, or nothing (the text does not parse, or a property access throws): the
  code catches that.  Times are milliseconds.
\<close>

record stored_note =
  stored_value :: "string option"
  stored_images :: "ImageData list option"
  stored_lastSavedAt :: "nat option"

datatype slot = Json stored_note | Unparsable

text \<open>What the remote fetch can turn out to be, at each of its two \<^verbatim>\<open>await\<close>s.\<close>

datatype fetch_result = FetchFailed | FetchResponse bool

datatype json_result = JsonFailed | JsonBody "string option" "string list option"

text \<open>
  The state of one mounted component, with the part of the browser it touches.
  \<^item> \<open>user_id\<close>, \<open>questionId\<close>: \<^verbatim>\<open>user?.id\<close> and the prop.
  \<^item> \<open>value\<close> to \<open>isEditing\<close>: the \<^verbatim>\<open>useState\<close> cells; the two \<open>Ref\<close>s of the snapshot.
  \<^item> \<open>debounceRef\<close>, \<open>syncDebounceRef\<close>: the pending timer of each ref, if any, as the time
    it is due and what its closure has captured (\<open>None\<close>: no timer, or a cleared or fired one);
    \<open>idleTimers\<close>: the pending \<^verbatim>\<open>setTimeout(() => setSaveState('idle'), 1200)\<close>.
  \<^item> \<open>effectRun\<close>: the number of the current run of the load effect; \<open>cancelledRuns\<close>: the
    runs whose \<^verbatim>\<open>cancelled\<close> variable is true.
  \<^item> \<open>localStorage\<close> with \<open>setItemThrows\<close> (the quota is exhausted), the \<open>clock\<close>, and three
    logs: the successful \<^verbatim>\<open>setItem\<close> calls, the bodies of the POST requests, the titles
    of the toasts (without their accents).
\<close>

record notes_state =
  user_id :: "string option"
  questionId :: string
  "value" :: string
  images :: "ImageData list"
  initialLoaded :: bool
  saveState :: SaveState
  lastSavedAt :: "nat option"
  isEditing :: bool
  lastSavedValueRef :: string
  lastSavedImagesRef :: "ImageData list"
  debounceRef :: "(nat \<times> string \<times> ImageData list) option"
  syncDebounceRef :: "(nat \<times> string \<times> string list) option"
  idleTimers :: "nat list"
  effectRun :: nat
  cancelledRuns :: "nat set"
  localStorage :: "string \<rightharpoonup> slot"
  setItemThrows :: bool
  clock :: nat
  written :: "(string \<times> stored_note) list"
  posts :: "(string \<times> string list) list"
  toasts :: "string list"

text \<open>\<^verbatim>\<open>!user?.id\<close> is true without a user and with an empty id.\<close>

definition has_user :: "notes_state \<Rightarrow> bool" where
  "has_user st = (case user_id st of Some u \<Rightarrow> u \<noteq> [] | None \<Rightarrow> False)"

text \<open>\<^verbatim>\<open>`notes_${user?.id || 'guest'}_${questionId}`\<close>\<close>

definition localStorageKey :: "notes_state \<Rightarrow> string" where
  "localStorageKey st =
     ''notes_'' @ (if has_user st then the (user_id st) else ''guest'') @ ''_'' @ questionId st"

text \<open>
  \<^verbatim>\<open>hasChanges\<close>.  The two image lists are compared through \<^verbatim>\<open>JSON.stringify\<close>; every
  record is built with its keys in the same order, so the texts are equal when the lists
  are.
\<close>

definition hasChanges :: "notes_state \<Rightarrow> bool" where
  "hasChanges st \<longleftrightarrow>
     value st \<noteq> lastSavedValueRef st \<or> images st \<noteq> lastSavedImagesRef st"

text \<open>
  One run of the autosave effect (lines 301 to 308) with the cleanup of the run before it:
  the pending timer is cleared, and a new one is set, 500 ms ahead, when the note is
  loaded, has changes and has a user.
\<close>

definition autosave_effect :: "notes_state \<Rightarrow> notes_state" where
  "autosave_effect st =
     (let st1 = st\<lparr>debounceRef := None\<rparr> in
      if \<not> initialLoaded st then st1
      else if \<not> hasChanges st then st1
      else if \<not> has_user st then st1
      else st1\<lparr>debounceRef := Some (clock st + 500, value st, images st)\<rparr>)"

text \<open>\<^verbatim>\<open>saveToLocalStorage\<close>: the new state and the boolean it returns.\<close>

definition saveToLocalStorage ::
  "string \<Rightarrow> ImageData list \<Rightarrow> notes_state \<Rightarrow> notes_state \<times> bool" where
  "saveToLocalStorage content imageData st =
     (if setItemThrows st then (st, False)
      else
        (let now = clock st;
             note = \<lparr>stored_value = Some content, stored_images = Some imageData,
                     stored_lastSavedAt = Some now\<rparr>
         in (st\<lparr>localStorage := (localStorage st)(localStorageKey st \<mapsto> Json note),
                written := written st @ [(localStorageKey st, note)],
                lastSavedAt := Some now\<rparr>, True)))"

text \<open>
  \<^verbatim>\<open>syncToServer\<close>, with the outcome of the POST (\<open>ok\<close>: it resolved with \<^verbatim>\<open>res.ok\<close>).
  A failure is caught and logged; only a toast tells, and only when not silent.
\<close>

definition syncToServer ::
  "string \<Rightarrow> string list \<Rightarrow> bool \<Rightarrow> bool \<Rightarrow> notes_state \<Rightarrow> notes_state \<times> bool" where
  "syncToServer content imageUrls silent ok st =
     (if \<not> has_user st then (st, False)
      else
        (let st1 = st\<lparr>posts := posts st @ [(content, imageUrls)]\<rparr> in
         if ok then ((if \<not> silent then st1\<lparr>toasts := toasts st1 @ [''Synchronise'']\<rparr> else st1), True)
         else ((if \<not> silent then st1\<lparr>toasts := toasts st1 @ [''Erreur de synchronisation'']\<rparr>
                else st1), False)))"

text \<open>
  \<^verbatim>\<open>save(silent)\<close>, run from a closure that holds \<open>v\<close> and \<open>imgs\<close> as \<^verbatim>\<open>value\<close> and
  \<^verbatim>\<open>images\<close>.  After a successful write \<^verbatim>\<open>setValue(cleanedContent)\<close> renders again when the
  text has changed, and the autosave effect runs.
\<close>

definition save :: "bool \<Rightarrow> string \<Rightarrow> ImageData list \<Rightarrow> notes_state \<Rightarrow> notes_state" where
  "save silent v imgs st =
     (if \<not> has_user st then
        (if \<not> silent then st\<lparr>toasts := toasts st @ [''Connexion requise'']\<rparr> else st)
      else
        (let st1 = st\<lparr>saveState := Saving\<rparr>;
             imageUrls = map url imgs;
             cleanedContent = cleanOrphanedImages v imageUrls;
             (st2, localSaved) = saveToLocalStorage cleanedContent imgs st1
         in if localSaved then
              (let st3 = st2\<lparr>value := cleanedContent,
                            lastSavedValueRef := cleanedContent,
                            lastSavedImagesRef := imgs,
                            saveState := Saved,
                            toasts := (if \<not> silent then toasts st2 @ [''Sauvegarde''] else toasts st2),
                            syncDebounceRef := Some (clock st + 2000, cleanedContent, imageUrls),
                            idleTimers := idleTimers st2 @ [clock st + 1200]\<rparr>
               in if cleanedContent \<noteq> value st then autosave_effect st3 else st3)
            else
              st2\<lparr>saveState := Error,
                  toasts := (if \<not> silent then toasts st2 @ [''Erreur''] else toasts st2)\<rparr>))"

text \<open>Lines 103 to 109: the reset at the start of the load effect.\<close>

definition reset_state :: "notes_state \<Rightarrow> notes_state" where
  "reset_state st =
     st\<lparr>value := [], images := [], initialLoaded := False, saveState := Idle,
        isEditing := False, lastSavedValueRef := [], lastSavedImagesRef := []\<rparr>"

text \<open>\<^verbatim>\<open>loadFromLocalStorage\<close>\<close>

definition loadFromLocalStorage :: "notes_state \<Rightarrow> notes_state" where
  "loadFromLocalStorage st =
     (case localStorage st (localStorageKey st) of
        None \<Rightarrow> st
      | Some Unparsable \<Rightarrow> st
      | Some (Json data) \<Rightarrow>
          (let v = (case stored_value data of Some v \<Rightarrow> v | None \<Rightarrow> []);
               imgs = (case stored_images data of Some imgs \<Rightarrow> imgs | None \<Rightarrow> [])
           in if v \<noteq> [] \<or> length imgs > 0 then
                st\<lparr>value := v, images := imgs,
                   lastSavedValueRef := v, lastSavedImagesRef := imgs,
                   lastSavedAt := stored_lastSavedAt data\<rparr>
              else st))"

text \<open>
  Lines 150 to 163: server data are used unless the slot of the local cache parses and
  holds the same text and the same list of URLs.
\<close>

definition shouldUseServerData :: "slot option \<Rightarrow> string \<Rightarrow> string list \<Rightarrow> bool" where
  "shouldUseServerData localData serverNotes serverImageUrls =
     (case localData of
        None \<Rightarrow> True
      | Some Unparsable \<Rightarrow> True
      | Some (Json parsed) \<Rightarrow>
          \<not> (stored_value parsed = Some serverNotes \<and>
             map url (case stored_images parsed of Some imgs \<Rightarrow> imgs | None \<Rightarrow> [])
               = serverImageUrls))"

text \<open>
  Lines 170 to 175: one record per id of the content, with the URL at the same index
  (\<^verbatim>\<open>serverImageUrls[index] || ''\<close>), and the records without a URL filtered out.
\<close>

definition build_imageData :: "string list \<Rightarrow> string list \<Rightarrow> ImageData list" where
  "build_imageData contentImageIds serverImageUrls =
     filter (\<lambda>img. url img \<noteq> [])
       (map (\<lambda>(imageId, index).
               \<lparr>id' = imageId,
                url = (if index < length serverImageUrls then serverImageUrls ! index else []),
                description = []\<rparr>)
            (zip contentImageIds [0 ..< length contentImageIds]))"

text \<open>
  Lines 149 to 191, for a run that is not cancelled, with the text and the URLs of the
  response.  When \<^verbatim>\<open>setItem\<close> throws, the state has been set already and the exception
  is caught at line 193.
\<close>

definition apply_server_data :: "string \<Rightarrow> string list \<Rightarrow> notes_state \<Rightarrow> notes_state" where
  "apply_server_data serverNotes serverImageUrls st =
     (let localData = localStorage st (localStorageKey st)
      in if shouldUseServerData localData serverNotes serverImageUrls
            \<and> (serverNotes \<noteq> [] \<or> length serverImageUrls > 0) then
           (let cleanedNotes = cleanOrphanedImages serverNotes serverImageUrls;
                contentImageIds = extractImageIds cleanedNotes;
                imageData = build_imageData contentImageIds serverImageUrls;
                now = clock st;
                note = \<lparr>stored_value = Some cleanedNotes, stored_images = Some imageData,
                        stored_lastSavedAt = Some now\<rparr>;
                st1 = st\<lparr>value := cleanedNotes, images := imageData,
                         lastSavedValueRef := cleanedNotes, lastSavedImagesRef := imageData,
                         lastSavedAt := Some now\<rparr>
            in if setItemThrows st then st1
               else st1\<lparr>localStorage := (localStorage st)(localStorageKey st \<mapsto> Json note),
                        written := written st @ [(localStorageKey st, note)]\<rparr>)
         else st)"

text \<open>
  The \<^verbatim>\<open>finally\<close> of \<^verbatim>\<open>syncWithServer\<close>; \<^verbatim>\<open>initialLoaded\<close> is a dependency of the
  autosave effect, which runs.
\<close>

definition finally_sync :: "bool \<Rightarrow> notes_state \<Rightarrow> notes_state" where
  "finally_sync cancelled st =
     (if \<not> cancelled then autosave_effect (st\<lparr>saveState := Idle, initialLoaded := True\<rparr>)
      else st)"

text \<open>
  \<^verbatim>\<open>syncWithServer\<close> of run \<open>n\<close> after its first \<^verbatim>\<open>await\<close> (the fetch) and after its
  second (\<^verbatim>\<open>res.json()\<close>).  Each reads the \<^verbatim>\<open>cancelled\<close> variable of its run.  A body
  whose \<^verbatim>\<open>notes\<close> is not a string counts as the empty text, one whose \<^verbatim>\<open>notesImageUrls\<close>
  is not an array as no URL (lines 138 to 147).
\<close>

definition after_fetch :: "nat \<Rightarrow> fetch_result \<Rightarrow> notes_state \<Rightarrow> notes_state" where
  "after_fetch n r st =
     (let cancelled = (n \<in> cancelledRuns st) in
      case r of
        FetchFailed \<Rightarrow> finally_sync cancelled st
      | FetchResponse ok \<Rightarrow> if \<not> ok \<or> cancelled then finally_sync cancelled st else st)"

definition after_json :: "nat \<Rightarrow> json_result \<Rightarrow> notes_state \<Rightarrow> notes_state" where
  "after_json n r st =
     (let cancelled = (n \<in> cancelledRuns st) in
      case r of
        JsonFailed \<Rightarrow> finally_sync cancelled st
      | JsonBody notes notesImageUrls \<Rightarrow>
          finally_sync cancelled
            (if \<not> cancelled then
               apply_server_data
                 (case notes of Some s \<Rightarrow> s | None \<Rightarrow> [])
                 (case notesImageUrls of Some us \<Rightarrow> us | None \<Rightarrow> []) st
             else st))"

text \<open>Lines 209 to 213: the cleanup of run \<open>n\<close> of the load effect.\<close>

definition effect_cleanup :: "nat \<Rightarrow> notes_state \<Rightarrow> notes_state" where
  "effect_cleanup n st =
     st\<lparr>cancelledRuns := insert n (cancelledRuns st), debounceRef := None,
        syncDebounceRef := None\<rparr>"

text \<open>
  Lines 99 to 208: the body of the load effect, up to the first \<^verbatim>\<open>await\<close>.  The reset
  changes \<^verbatim>\<open>images\<close>, so the autosave effect runs; nothing is loaded yet, and it only
  clears its timer.
\<close>

definition load_effect :: "notes_state \<Rightarrow> notes_state" where
  "load_effect st =
     (let st1 = autosave_effect (loadFromLocalStorage (reset_state st)) in
      if \<not> has_user st1 \<or> effectRun st1 \<in> cancelledRuns st1 then st1
      else st1\<lparr>saveState := Loading\<rparr>)"

text \<open>
  The question or the user changes: React runs the cleanup of the current run, then the
  effect again, as a new run, with the new props.
\<close>

definition hydrate :: "string option \<Rightarrow> string \<Rightarrow> notes_state \<Rightarrow> notes_state" where
  "hydrate u q st =
     load_effect
       ((effect_cleanup (effectRun st) st)
          \<lparr>user_id := u, questionId := q, effectRun := Suc (effectRun st)\<rparr>)"

text \<open>
  A component as it is mounted (lines 26 to 35), for a user, a question and a local
  cache, before its effects run; and after the first run of the load effect.
\<close>

definition initial_state :: "string option \<Rightarrow> string \<Rightarrow> (string \<rightharpoonup> slot) \<Rightarrow> notes_state" where
  "initial_state u q storage =
     \<lparr>user_id = u, questionId = q, value = [], images = [], initialLoaded = False,
      saveState = Idle, lastSavedAt = None, isEditing = False, lastSavedValueRef = [],
      lastSavedImagesRef = [], debounceRef = None, syncDebounceRef = None, idleTimers = [],
      effectRun = 0, cancelledRuns = {}, localStorage = storage, setItemThrows = False,
      clock = 0, written = [], posts = [], toasts = []\<rparr>"

definition mount :: "string option \<Rightarrow> string \<Rightarrow> (string \<rightharpoonup> slot) \<Rightarrow> notes_state" where
  "mount u q storage = load_effect (initial_state u q storage)"

text \<open>\<^verbatim>\<open>clearNote\<close>, with the outcome of its POST.\<close>

definition clearNote :: "bool \<Rightarrow> notes_state \<Rightarrow> notes_state" where
  "clearNote ok st =
     (let st1 = st\<lparr>value := [], images := [], isEditing := False,
                  localStorage := (localStorage st)(localStorageKey st := None)\<rparr>;
          st2 = (if has_user st1 then fst (syncToServer [] [] True ok st1) else st1);
          st3 = st2\<lparr>lastSavedValueRef := [], lastSavedImagesRef := [], lastSavedAt := None,
                   toasts := toasts st2 @ [''Efface'']\<rparr>
      in autosave_effect st3)"

definition handleCancelEdit :: "notes_state \<Rightarrow> notes_state" where
  "handleCancelEdit st =
     autosave_effect
       (st\<lparr>value := lastSavedValueRef st, images := lastSavedImagesRef st, isEditing := False\<rparr>)"

definition handleSaveEdit :: "notes_state \<Rightarrow> notes_state" where
  "handleSaveEdit st = (save False (value st) (images st) st)\<lparr>isEditing := False\<rparr>"

text \<open>
  The editor reports a change through \<^verbatim>\<open>onChange={setValue}\<close> and
  \<^verbatim>\<open>onImagesChange={setImages}\<close> (lines 430 to 432 and 524 to 526).  React compares the new
  state with the current one by \<^verbatim>\<open>Object.is\<close>.  A text equal to the current one is the same
  value: the component does not render again and no effect runs.  An array is a new object
  each time (every caller builds one: lines 661, 695, 762, 786 and 904), whatever it holds:
  the component renders, and the autosave effect, which depends on \<^verbatim>\<open>images\<close>, runs again.
  \<^item> \<open>setValue\<close> alone: the text area (line 961).
  \<^item> \<open>setImages\<close> alone: an image is edited or associated (lines 786 and 904).
  \<^item> \<open>edit\<close>: an image is inserted or removed, or the legacy placeholders are migrated;
    \<^verbatim>\<open>updateImages\<close> is called, then \<^verbatim>\<open>onChange\<close> (lines 661 and 662, 695 to 700, 762 to
    767).  Whether React renders once for the two calls or once for each, the autosave
    effect leaves the same timer.
\<close>

definition setValue :: "string \<Rightarrow> notes_state \<Rightarrow> notes_state" where
  "setValue v st = (if v = value st then st else autosave_effect (st\<lparr>value := v\<rparr>))"

definition setImages :: "ImageData list \<Rightarrow> notes_state \<Rightarrow> notes_state" where
  "setImages imgs st = autosave_effect (st\<lparr>images := imgs\<rparr>)"

definition edit :: "string \<Rightarrow> ImageData list \<Rightarrow> notes_state \<Rightarrow> notes_state" where
  "edit v imgs st = setValue v (setImages imgs st)"

text \<open>
  The timers.  A timer runs when the event loop gets to it, at or after the time it is
  due; a cleared one never runs.
\<close>

definition fire_autosave :: "notes_state \<Rightarrow> notes_state" where
  "fire_autosave st =
     (case debounceRef st of
        None \<Rightarrow> st
      | Some (due, v, imgs) \<Rightarrow>
          if due \<le> clock st then save True v imgs (st\<lparr>debounceRef := None\<rparr>) else st)"

definition fire_sync :: "bool \<Rightarrow> notes_state \<Rightarrow> notes_state" where
  "fire_sync ok st =
     (case syncDebounceRef st of
        None \<Rightarrow> st
      | Some (due, content, imageUrls) \<Rightarrow>
          if due \<le> clock st
          then fst (syncToServer content imageUrls True ok (st\<lparr>syncDebounceRef := None\<rparr>))
          else st)"

definition fire_idle :: "notes_state \<Rightarrow> notes_state" where
  "fire_idle st =
     (case idleTimers st of
        [] \<Rightarrow> st
      | due # rest \<Rightarrow>
          if due \<le> clock st then st\<lparr>idleTimers := rest, saveState := Idle\<rparr> else st)"

text \<open>What can happen to a mounted component, and what each event does.\<close>

datatype event =
    Edit string "ImageData list"
  | EditText string
  | EditImages "ImageData list"
  | ClickEdit
  | ClickCancel
  | ClickSave
  | ClickClear bool
  | AutosaveTimer
  | SyncTimer bool
  | IdleTimer
  | FetchArrives nat fetch_result
  | JsonArrives nat json_result
  | Navigate "string option" string
  | Tick nat
  | Quota bool

fun step :: "event \<Rightarrow> notes_state \<Rightarrow> notes_state" where
  "step (Edit v imgs) st = edit v imgs st"
| "step (EditText v) st = setValue v st"
| "step (EditImages imgs) st = setImages imgs st"
| "step ClickEdit st = st\<lparr>isEditing := True\<rparr>"
| "step ClickCancel st = handleCancelEdit st"
| "step ClickSave st = handleSaveEdit st"
| "step (ClickClear ok) st = clearNote ok st"
| "step AutosaveTimer st = fire_autosave st"
| "step (SyncTimer ok) st = fire_sync ok st"
| "step IdleTimer st = fire_idle st"
| "step (FetchArrives n r) st = after_fetch n r st"
| "step (JsonArrives n r) st = after_json n r st"
| "step (Navigate u q) st = hydrate u q st"
| "step (Tick d) st = st\<lparr>clock := clock st + d\<rparr>"
| "step (Quota full) st = st\<lparr>setItemThrows := full\<rparr>"

definition run :: "event list \<Rightarrow> notes_state \<Rightarrow> notes_state" where
  "run es st = fold step es st"

section \<open>Bodies as sequences of characters and tokens\<close>

text \<open>
  The specification speaks of a body as text with placeholder tokens in it, and of the
  position of a token among the tokens.  This reading of a body is written down here, next
  to the code, to compare the two: a body is a list of items, each a plain character or a
  token with its id; \<open>render\<close> is its text, \<open>plain\<close> the text with every token taken out,
  \<open>token_ids\<close> the ids in order, and \<open>keep_tokens n\<close> keeps the first \<open>n\<close> tokens and
  drops the others.
\<close>

datatype item = Ch char | Tk string

fun render :: "item list \<Rightarrow> string" where
  "render [] = []"
| "render (Ch c # its) = c # render its"
| "render (Tk i # its) = image_tag i @ render its"

fun plain :: "item list \<Rightarrow> string" where
  "plain [] = []"
| "plain (Ch c # its) = c # plain its"
| "plain (Tk i # its) = plain its"

fun token_ids :: "item list \<Rightarrow> string list" where
  "token_ids [] = []"
| "token_ids (Ch c # its) = token_ids its"
| "token_ids (Tk i # its) = i # token_ids its"

fun keep_tokens :: "nat \<Rightarrow> item list \<Rightarrow> item list" where
  "keep_tokens n [] = []"
| "keep_tokens n (Ch c # its) = Ch c # keep_tokens n its"
| "keep_tokens 0 (Tk i # its) = keep_tokens 0 its"
| "keep_tokens (Suc n) (Tk i # its) = Tk i # keep_tokens n its"

text \<open>
  The tokens whose id stands at index \<open>n\<close> or later are dropped, wherever they stand.
\<close>

definition strip_items :: "nat \<Rightarrow> item list \<Rightarrow> item list" where
  "strip_items n its = filter (\<lambda>it. it \<notin> Tk ` set (drop n (token_ids its))) its"

text \<open>
  A body is unambiguous when \<^verbatim>\<open>[IMAGE:\<close> opens its tokens and stands nowhere else: not in
  an id, and not in the plain text, also once tokens are taken out of it.  An id is not
  empty and has no \<^verbatim>\<open>]\<close>.
\<close>

fun has_marker :: "string \<Rightarrow> bool" where
  "has_marker [] = False"
| "has_marker (c # cs) = (take 7 (c # cs) = ''[IMAGE:'' \<or> has_marker cs)"

definition wf_id :: "string \<Rightarrow> bool" where
  "wf_id i \<longleftrightarrow> i \<noteq> [] \<and> CHR '']'' \<notin> set i \<and> \<not> has_marker i"

definition wf_items :: "item list \<Rightarrow> bool" where
  "wf_items its \<longleftrightarrow> list_all wf_id (token_ids its) \<and> \<not> has_marker (plain its)"



section \<open>The codec on unambiguous bodies\<close>

text \<open>
  On an unambiguous body the scans of the code find the tokens of the body, and nothing
  else: the lemmas below follow a scan item by item.
\<close>

lemma take_render_plain:
  "take k (render its) = w \<Longrightarrow> length w = k \<Longrightarrow> CHR ''['' \<notin> set w \<Longrightarrow> take k (plain its) = w"
proof (induction its arbitrary: k w)
  case Nil
  then show ?case by simp
next
  case (Cons it its)
  show ?case
  proof (cases it)
    case (Ch c)
    show ?thesis
    proof (cases k)
      case 0
      with Cons.prems show ?thesis by simp
    next
      case (Suc m)
      with Cons.prems Ch obtain w' where w: "w = c # w'" and t: "take m (render its) = w'"
        by (cases w) auto
      from Cons.prems w Suc have "length w' = m" "CHR ''['' \<notin> set w'" by auto
      from Cons.IH[OF t this] show ?thesis using Ch Suc w by simp
    qed
  next
    case (Tk i)
    show ?thesis
    proof (cases k)
      case 0
      with Cons.prems show ?thesis by simp
    next
      case (Suc m)
      with Cons.prems Tk have "hd w = CHR ''[''" "w \<noteq> []"
        by (auto simp: image_tag_def)
      with Cons.prems show ?thesis by (cases w) auto
    qed
  qed
qed

lemma no_marker_at_char:
  assumes "\<not> has_marker (c # plain its)"
  shows "take 7 (c # render its) \<noteq> ''[IMAGE:''"
proof
  assume a: "take 7 (c # render its) = ''[IMAGE:''"
  then have c: "c = CHR ''[''" and t: "take 6 (render its) = ''IMAGE:''"
    by (simp_all add: take_Cons')
  have "take 6 (plain its) = ''IMAGE:''"
    by (rule take_render_plain[OF t]) simp_all
  with c have "take 7 (c # plain its) = ''[IMAGE:''" by (simp add: take_Cons')
  with assms show False by simp
qed

lemma match_image_None: "take 7 s \<noteq> ''[IMAGE:'' \<Longrightarrow> match_image s = None"
  by (simp add: match_image_def)

lemma match_image_tag:
  assumes "i \<noteq> []" "CHR '']'' \<notin> set i"
  shows "match_image (image_tag i @ r) = Some (i, r)"
proof -
  have d: "drop 7 (image_tag i @ r) = i @ CHR '']'' # r" by (simp add: image_tag_def)
  have t: "take 7 (image_tag i @ r) = ''[IMAGE:''" by (simp add: image_tag_def)
  have tw: "takeWhile (\<lambda>c. c \<noteq> CHR '']'') (i @ CHR '']'' # r) = i"
    using assms(2) by (auto simp: takeWhile_tail)
  have dw: "dropWhile (\<lambda>c. c \<noteq> CHR '']'') (i @ CHR '']'' # r) = CHR '']'' # r"
    using assms(2) by (auto simp: dropWhile_append3)
  show ?thesis unfolding match_image_def t d Let_def tw dw using assms(1) by simp
qed

lemma wf_items_Ch: "wf_items (Ch c # its) \<Longrightarrow> wf_items its"
  by (simp add: wf_items_def)

lemma wf_items_Tk: "wf_items (Tk i # its) \<Longrightarrow> wf_items its \<and> wf_id i"
  by (simp add: wf_items_def)

lemma extract_render: "wf_items its \<Longrightarrow> extractImageIds (render its) = token_ids its"
proof (induction its)
  case Nil
  then show ?case by simp
next
  case (Cons it its)
  show ?case
  proof (cases it)
    case (Ch c)
    from Cons.prems Ch have "\<not> has_marker (c # plain its)" by (simp add: wf_items_def)
    then have "match_image (c # render its) = None"
      by (intro match_image_None no_marker_at_char)
    with Cons Ch show ?thesis by (simp add: wf_items_Ch)
  next
    case (Tk i)
    with Cons.prems have w: "wf_items its" "wf_id i" by (auto dest: wf_items_Tk)
    then have m: "match_image (image_tag i @ render its) = Some (i, render its)"
      by (intro match_image_tag) (auto simp: wf_id_def)
    obtain c cs where cs: "image_tag i @ render its = c # cs" by (auto simp: image_tag_def)
    with m Cons.IH[OF w(1)] Tk show ?thesis by simp
  qed
qed

lemma replace_tokens_render: "wf_items its \<Longrightarrow> replace_image_tokens (render its) = plain its"
proof (induction its)
  case Nil
  then show ?case by simp
next
  case (Cons it its)
  show ?case
  proof (cases it)
    case (Ch c)
    from Cons.prems Ch have "\<not> has_marker (c # plain its)" by (simp add: wf_items_def)
    then have "match_image (c # render its) = None"
      by (intro match_image_None no_marker_at_char)
    with Cons Ch show ?thesis by (simp add: wf_items_Ch)
  next
    case (Tk i)
    with Cons.prems have w: "wf_items its" "wf_id i" by (auto dest: wf_items_Tk)
    then have m: "match_image (image_tag i @ render its) = Some (i, render its)"
      by (intro match_image_tag) (auto simp: wf_id_def)
    obtain c cs where cs: "image_tag i @ render its = c # cs" by (auto simp: image_tag_def)
    with m Cons.IH[OF w(1)] Tk show ?thesis by simp
  qed
qed


lemma tag_prefix_marker:
  assumes "take (length (image_tag x)) s = image_tag x"
  shows "take 7 s = ''[IMAGE:''"
proof -
  have "take 7 (take (length (image_tag x)) s) = take 7 s"
    by (simp add: image_tag_def min_def)
  moreover have "take 7 (image_tag x) = ''[IMAGE:''" by (simp add: image_tag_def)
  ultimately show ?thesis using assms by simp
qed

declare replace_image_tag.simps [simp del]

lemma replace_tag_miss:
  "take (length (image_tag x)) (c # cs) \<noteq> image_tag x \<Longrightarrow>
     replace_image_tag x (c # cs) = c # replace_image_tag x cs"
  by (simp add: replace_image_tag.simps(2))

lemma replace_tag_step_keep:
  "take 7 (c # cs) \<noteq> ''[IMAGE:'' \<Longrightarrow>
     replace_image_tag x (c # cs) = c # replace_image_tag x cs"
  using tag_prefix_marker[of x "c # cs"] by (intro replace_tag_miss) blast

lemma replace_tag_skip_plain:
  "CHR ''['' \<notin> set u \<Longrightarrow> replace_image_tag x (u @ r) = u @ replace_image_tag x r"
proof (induction u)
  case Nil
  then show ?case by simp
next
  case (Cons c u)
  then have "take 7 (c # (u @ r)) \<noteq> ''[IMAGE:''" by (auto simp: take_Cons')
  with Cons show ?case by (simp add: replace_tag_step_keep replace_image_tag.simps(1))
qed

lemma marker_before_close:
  assumes "take 7 (a @ CHR '']'' # r) = ''[IMAGE:''"
  shows "take 7 a = ''[IMAGE:''"
proof (cases "7 \<le> length a")
  case True
  with assms show ?thesis by simp
next
  case False
  then have "CHR '']'' \<in> set (take 7 (a @ CHR '']'' # r))"
    by (auto simp: take_Cons' in_set_conv_decomp)
  with assms show ?thesis by simp
qed

lemma replace_tag_skip_id:
  "\<not> has_marker i \<Longrightarrow>
     replace_image_tag x (i @ CHR '']'' # r) = i @ replace_image_tag x (CHR '']'' # r)"
proof (induction i)
  case Nil
  then show ?case by simp
next
  case (Cons c i)
  have "take 7 (c # i @ CHR '']'' # r) \<noteq> ''[IMAGE:''"
  proof
    assume "take 7 (c # i @ CHR '']'' # r) = ''[IMAGE:''"
    then have "take 7 ((c # i) @ CHR '']'' # r) = ''[IMAGE:''" by simp
    then have "take 7 (c # i) = ''[IMAGE:''" by (rule marker_before_close)
    with Cons.prems show False by simp
  qed
  with Cons show ?case by (simp add: replace_tag_step_keep)
qed

lemma tag_prefix_same_id:
  assumes "take (length (image_tag x)) (image_tag i @ r) = image_tag x"
    and "CHR '']'' \<notin> set x" "CHR '']'' \<notin> set i"
  shows "x = i"
proof -
  from assms(1) have "take (length x + 1) (i @ CHR '']'' # r) = x @ '']''"
    by (simp add: image_tag_def)
  then obtain z where z: "i @ CHR '']'' # r = x @ CHR '']'' # z"
    by (metis append_take_drop_id append.assoc append_Cons append_Nil)
  have "takeWhile (\<lambda>c. c \<noteq> CHR '']'') (i @ CHR '']'' # r) = i"
    using assms(3) by (auto simp: takeWhile_tail)
  moreover have "takeWhile (\<lambda>c. c \<noteq> CHR '']'') (x @ CHR '']'' # z) = x"
    using assms(2) by (auto simp: takeWhile_tail)
  ultimately show ?thesis using z by simp
qed

lemma replace_tag_other:
  assumes "x \<noteq> i" "CHR '']'' \<notin> set x" "wf_id i"
  shows "replace_image_tag x (image_tag i @ r) = image_tag i @ replace_image_tag x r"
proof -
  from assms have ni: "CHR '']'' \<notin> set i" "\<not> has_marker i" by (auto simp: wf_id_def)
  have nope: "take (length (image_tag x)) (image_tag i @ r) \<noteq> image_tag x"
    using tag_prefix_same_id[OF _ assms(2) ni(1)] assms(1) by blast
  have "image_tag i @ r = CHR ''['' # (''IMAGE:'' @ i @ CHR '']'' # r)"
    by (simp add: image_tag_def)
  moreover have "replace_image_tag x (CHR ''['' # (''IMAGE:'' @ i @ CHR '']'' # r))
       = CHR ''['' # replace_image_tag x (''IMAGE:'' @ i @ CHR '']'' # r)"
    using nope by (intro replace_tag_miss) (simp add: image_tag_def)
  moreover have "replace_image_tag x (''IMAGE:'' @ i @ CHR '']'' # r)
       = ''IMAGE:'' @ replace_image_tag x (i @ CHR '']'' # r)"
    by (rule replace_tag_skip_plain) simp
  moreover have "replace_image_tag x (i @ CHR '']'' # r) = i @ replace_image_tag x (CHR '']'' # r)"
    by (rule replace_tag_skip_id[OF ni(2)])
  moreover have "replace_image_tag x (CHR '']'' # r) = CHR '']'' # replace_image_tag x r"
    by (rule replace_tag_step_keep) simp
  ultimately show ?thesis by (simp add: image_tag_def)
qed

lemma replace_tag_same:
  "replace_image_tag x (image_tag x @ r) = replace_image_tag x r"
proof -
  obtain c cs where cs: "image_tag x @ r = c # cs" by (auto simp: image_tag_def)
  have "take (length (image_tag x)) (c # cs) = image_tag x"
    "drop (length (image_tag x)) (c # cs) = r"
    unfolding cs[symmetric] by simp_all
  then show ?thesis unfolding cs by (simp add: replace_image_tag.simps(2))
qed

lemma replace_tag_render:
  assumes "wf_items its" "CHR '']'' \<notin> set x"
  shows "replace_image_tag x (render its) = render (filter (\<lambda>it. it \<noteq> Tk x) its)"
  using assms(1)
proof (induction its)
  case Nil
  then show ?case by (simp add: replace_image_tag.simps(1))
next
  case (Cons it its)
  show ?case
  proof (cases it)
    case (Ch c)
    from Cons.prems Ch have "\<not> has_marker (c # plain its)" by (simp add: wf_items_def)
    then have "take 7 (c # render its) \<noteq> ''[IMAGE:''" by (rule no_marker_at_char)
    then have "replace_image_tag x (c # render its) = c # replace_image_tag x (render its)"
      by (rule replace_tag_step_keep)
    with Cons Ch show ?thesis by (simp add: wf_items_Ch)
  next
    case (Tk i)
    with Cons.prems have w: "wf_items its" "wf_id i" by (auto dest: wf_items_Tk)
    show ?thesis
    proof (cases "x = i")
      case True
      with Tk Cons.IH[OF w(1)] show ?thesis by (simp add: replace_tag_same)
    next
      case False
      with Tk Cons.IH[OF w(1)] assms(2) w(2) show ?thesis
        by (simp add: replace_tag_other)
    qed
  qed
qed


lemma fold_index_drop:
  "fold (\<lambda>(imageId, index) cleaned.
            if index \<ge> n then replace_image_tag imageId cleaned else cleaned)
        (zip ids [k ..< k + length ids]) s
   = fold replace_image_tag (drop (n - k) ids) s"
proof (induction ids arbitrary: k s)
  case Nil
  then show ?case by simp
next
  case (Cons i ids)
  have u: "[k ..< k + length (i # ids)] = k # [Suc k ..< Suc k + length ids]"
    by (subst upt_rec) simp
  show ?case
  proof (cases "n \<le> k")
    case True
    then have "n - k = 0" "n - Suc k = 0" by simp_all
    with Cons.IH[of "Suc k"] True show ?thesis unfolding u by simp
  next
    case False
    then have "drop (n - k) (i # ids) = drop (n - Suc k) ids"
      by (simp add: drop_Cons' Suc_diff_Suc)
    with Cons.IH[of "Suc k"] False show ?thesis unfolding u by simp
  qed
qed

lemma plain_filter: "(\<And>c. P (Ch c)) \<Longrightarrow> plain (filter P its) = plain its"
  by (induction its rule: plain.induct) auto

lemma token_ids_filter:
  "(\<And>c. P (Ch c)) \<Longrightarrow> token_ids (filter P its) = filter (\<lambda>i. P (Tk i)) (token_ids its)"
  by (induction its rule: token_ids.induct) auto

lemma wf_items_filter:
  assumes "wf_items its" "\<And>c. P (Ch c)"
  shows "wf_items (filter P its)"
  using assms by (auto simp: wf_items_def plain_filter token_ids_filter list_all_iff)

lemma fold_replace_render:
  "wf_items its \<Longrightarrow> \<forall>x\<in>set xs. CHR '']'' \<notin> set x \<Longrightarrow>
     fold replace_image_tag xs (render its)
     = render (filter (\<lambda>it. \<forall>x\<in>set xs. it \<noteq> Tk x) its)"
proof (induction xs arbitrary: its)
  case Nil
  then show ?case by simp
next
  case (Cons x xs)
  let ?its = "filter (\<lambda>it. it \<noteq> Tk x) its"
  have w: "wf_items ?its" using Cons.prems(1) by (rule wf_items_filter) simp
  have "fold replace_image_tag (x # xs) (render its) = fold replace_image_tag xs (render ?its)"
    using Cons.prems by (simp add: replace_tag_render)
  also have "\<dots> = render (filter (\<lambda>it. \<forall>x\<in>set xs. it \<noteq> Tk x) ?its)"
    using Cons.prems(2) by (intro Cons.IH[OF w]) simp
  also have "filter (\<lambda>it. \<forall>x\<in>set xs. it \<noteq> Tk x) ?its
       = filter (\<lambda>it. \<forall>y\<in>set (x # xs). it \<noteq> Tk y) its"
    by (auto intro: filter_cong)
  finally show ?case .
qed

lemma match_image_id:
  assumes "match_image s = Some (i, r)"
  shows "i \<noteq> [] \<and> CHR '']'' \<notin> set i \<and> s = image_tag i @ r"
proof -
  let ?P = "\<lambda>c. c \<noteq> CHR '']''"
  let ?b = "drop 7 s"
  from assms have t: "take 7 s = ''[IMAGE:''" and i: "i = takeWhile ?P ?b" and ne: "i \<noteq> []"
    and r: "r = tl (dropWhile ?P ?b)" and dne: "dropWhile ?P ?b \<noteq> []"
    by (auto simp: match_image_def Let_def split: if_splits)
  from dne have "hd (dropWhile ?P ?b) = CHR '']''" using hd_dropWhile[of ?P ?b] by simp
  with dne r have d: "dropWhile ?P ?b = CHR '']'' # r" by (cases "dropWhile ?P ?b") auto
  have "s = take 7 s @ takeWhile ?P ?b @ dropWhile ?P ?b" by simp
  with t i d have "s = image_tag i @ r" by (simp add: image_tag_def)
  moreover from i have "CHR '']'' \<notin> set i" by (auto dest: set_takeWhileD)
  ultimately show ?thesis using ne by simp
qed

lemma extract_ids_shape:
  "x \<in> set (extractImageIds s) \<Longrightarrow> x \<noteq> [] \<and> CHR '']'' \<notin> set x"
proof (induction s rule: extractImageIds.induct)
  case 1
  then show ?case by simp
next
  case (2 c cs)
  show ?case
  proof (cases "match_image (c # cs)")
    case None
    with 2 show ?thesis by simp
  next
    case (Some p)
    obtain i r where p: "p = (i, r)" by (cases p)
    with Some 2 match_image_id[of "c # cs" i r] show ?thesis by auto
  qed
qed

lemma strip_items_alt:
  "strip_items n its = filter (\<lambda>it. \<forall>x\<in>set (drop n (token_ids its)). it \<noteq> Tk x) its"
  unfolding strip_items_def by (rule filter_cong) auto

lemma clean_render_urls:
  assumes "wf_items its" "urls \<noteq> []"
  shows "cleanOrphanedImages (render its) urls = trim (render (strip_items (length urls) its))"
proof -
  have ids: "extractImageIds (render its) = token_ids its" using assms(1) by (rule extract_render)
  have sh: "\<forall>x\<in>set (drop (length urls) (token_ids its)). CHR '']'' \<notin> set x"
    using extract_ids_shape[of _ "render its"] unfolding ids by (auto dest: in_set_dropD)
  have "fold (\<lambda>(imageId, index) cleaned.
            if index \<ge> length urls then replace_image_tag imageId cleaned else cleaned)
        (zip (token_ids its) [0 ..< length (token_ids its)]) (render its)
     = fold replace_image_tag (drop (length urls) (token_ids its)) (render its)"
    using fold_index_drop[of "length urls" "token_ids its" 0 "render its"] by simp
  also have "\<dots> = render (strip_items (length urls) its)"
    unfolding strip_items_alt by (rule fold_replace_render[OF assms(1) sh])
  finally show ?thesis using assms(2) by (simp add: cleanOrphanedImages_def ids)
qed

lemma clean_render_no_urls:
  "wf_items its \<Longrightarrow> cleanOrphanedImages (render its) [] = plain its"
  by (simp add: cleanOrphanedImages_def replace_tokens_render)

lemma filter_keep_tokens:
  "distinct (token_ids its) \<Longrightarrow> set (drop n (token_ids its)) \<subseteq> S \<Longrightarrow>
   S \<inter> set (take n (token_ids its)) = {} \<Longrightarrow>
     filter (\<lambda>it. \<forall>x\<in>S. it \<noteq> Tk x) its = keep_tokens n its"
proof (induction n its arbitrary: S rule: keep_tokens.induct)
  case (1 n)
  then show ?case by simp
next
  case (2 n c its)
  then show ?case by simp
next
  case (3 i its)
  then show ?case by auto
next
  case (4 n i its)
  from "4.prems" have "filter (\<lambda>it. \<forall>x\<in>S. it \<noteq> Tk x) its = keep_tokens n its"
    by (intro "4.IH") auto
  moreover from "4.prems" have "i \<notin> S" by auto
  ultimately show ?case by auto
qed

lemma strip_items_distinct:
  assumes "distinct (token_ids its)"
  shows "strip_items n its = keep_tokens n its"
  unfolding strip_items_alt
proof (rule filter_keep_tokens[OF assms subset_refl])
  from assms have "distinct (take n (token_ids its) @ drop n (token_ids its))" by simp
  then show "set (drop n (token_ids its)) \<inter> set (take n (token_ids its)) = {}"
    unfolding distinct_append by blast
qed


lemma dropWhile_rev_stable:
  assumes "u = [] \<or> \<not> P (hd u)"
  shows "dropWhile P (rev (dropWhile P (rev u))) = rev (dropWhile P (rev u))"
proof (cases u)
  case Nil
  then show ?thesis by simp
next
  case (Cons a u')
  with assms have a: "\<not> P a" by simp
  have "\<exists>v. dropWhile P (rev u' @ [a]) = v @ [a]"
  proof (cases "\<forall>x\<in>set (rev u'). P x")
    case True
    then have "dropWhile P (rev u' @ [a]) = dropWhile P [a]"
      by (intro dropWhile_append2) simp
    then have "dropWhile P (rev u' @ [a]) = [] @ [a]" using a by simp
    then show ?thesis by blast
  next
    case False
    then obtain x where "x \<in> set (rev u')" "\<not> P x" by blast
    then have "dropWhile P (rev u' @ [a]) = dropWhile P (rev u') @ [a]"
      by (rule dropWhile_append1)
    then show ?thesis by blast
  qed
  then obtain v where v: "dropWhile P (rev u' @ [a]) = v @ [a]" ..
  show ?thesis using a unfolding Cons by (simp add: v)
qed

lemma trim_idem: "trim (trim s) = trim s"
proof -
  let ?d = "dropWhile is_js_whitespace"
  have h: "?d s = [] \<or> \<not> is_js_whitespace (hd (?d s))"
    using hd_dropWhile[of is_js_whitespace s] by blast
  have "?d (rev (?d (rev (?d s)))) = rev (?d (rev (?d s)))"
    using h by (rule dropWhile_rev_stable[of "?d s" is_js_whitespace])
  then show ?thesis by (simp add: trim_def)
qed

lemma match_image_no_close: "CHR '']'' \<notin> set s \<Longrightarrow> match_image s = None"
proof -
  assume a: "CHR '']'' \<notin> set s"
  have "\<forall>x\<in>set (drop 7 s). x \<noteq> CHR '']''" using a by (auto dest: in_set_dropD)
  then have "dropWhile (\<lambda>c. c \<noteq> CHR '']'') (drop 7 s) = []"
    by simp
  then show ?thesis unfolding match_image_def Let_def by simp
qed

lemma extract_no_close: "CHR '']'' \<notin> set s \<Longrightarrow> extractImageIds s = []"
  by (induction s) (auto simp: match_image_no_close)

lemma match_image_append:
  assumes "CHR '']'' \<notin> set w"
  shows "match_image (s @ w) = (case match_image s of None \<Rightarrow> None | Some (i, r) \<Rightarrow> Some (i, r @ w))"
proof (cases "take 7 s = ''[IMAGE:''")
  case True
  then have "length (take 7 s) = length ''[IMAGE:''" by (rule arg_cong)
  then have l: "7 \<le> length s" by simp
  let ?P = "\<lambda>c. c \<noteq> CHR '']''"
  let ?b = "drop 7 s"
  from l True have t: "take 7 (s @ w) = ''[IMAGE:''" and d: "drop 7 (s @ w) = ?b @ w" by simp_all
  show ?thesis
  proof (cases "CHR '']'' \<in> set ?b")
    case in_b: True
    then have tw: "takeWhile ?P (?b @ w) = takeWhile ?P ?b"
      and dw: "dropWhile ?P (?b @ w) = dropWhile ?P ?b @ w" by auto
    from in_b have ne: "dropWhile ?P ?b \<noteq> []" by auto
    then have "tl (dropWhile ?P ?b @ w) = tl (dropWhile ?P ?b) @ w" by simp
    with ne True t show ?thesis unfolding match_image_def d Let_def tw dw by simp
  next
    case False
    with assms have "CHR '']'' \<notin> set (?b @ w)" by simp
    then have "dropWhile ?P (?b @ w) = []" by auto
    moreover from False have "dropWhile ?P ?b = []" by auto
    ultimately show ?thesis unfolding match_image_def d Let_def by simp
  qed
next
  case False
  then have n: "match_image s = None" by (rule match_image_None)
  show ?thesis
  proof (cases "take 7 (s @ w) = ''[IMAGE:''")
    case t: True
    with False have l: "length s < 7" by (cases "7 \<le> length s") auto
    then have "s = take (length s) (take 7 (s @ w))" by simp
    then have "set s \<subseteq> set (take 7 (s @ w))" by (metis set_take_subset)
    with t have "CHR '']'' \<notin> set s" by auto
    with assms have "match_image (s @ w) = None" by (intro match_image_no_close) simp
    with n show ?thesis by simp
  next
    case False
    then show ?thesis using n by (simp add: match_image_None)
  qed
qed

lemma extract_append_no_close:
  "CHR '']'' \<notin> set w \<Longrightarrow> extractImageIds (s @ w) = extractImageIds s"
proof (induction s rule: extractImageIds.induct)
  case 1
  then show ?case by (simp add: extract_no_close)
next
  case (2 c cs)
  show ?case
  proof (cases "match_image (c # cs)")
    case None
    with 2 match_image_append[OF "2.prems", of "c # cs"] show ?thesis by simp
  next
    case (Some p)
    obtain i r where p: "p = (i, r)" by (cases p)
    with Some 2 match_image_append[OF "2.prems", of "c # cs"] show ?thesis by simp
  qed
qed

lemma extract_dropWhile_ws:
  "extractImageIds (dropWhile is_js_whitespace s) = extractImageIds s"
proof (induction s)
  case Nil
  then show ?case by simp
next
  case (Cons c s)
  show ?case
  proof (cases "is_js_whitespace c")
    case True
    then have "c \<noteq> CHR ''[''" by (auto simp: is_js_whitespace_def)
    then have "match_image (c # s) = None" by (intro match_image_None) (simp add: take_Cons')
    with True Cons show ?thesis by simp
  next
    case False
    then show ?thesis by simp
  qed
qed

lemma extract_trim: "extractImageIds (trim s) = extractImageIds s"
proof -
  let ?d = "dropWhile is_js_whitespace"
  let ?t = "takeWhile is_js_whitespace"
  have "rev (?d (rev (?d s))) @ rev (?t (rev (?d s))) = ?d s"
    by (metis rev_append rev_rev_ident takeWhile_dropWhile_id)
  moreover have "CHR '']'' \<notin> set (rev (?t (rev (?d s))))"
    by (auto dest!: set_takeWhileD simp: is_js_whitespace_def)
  ultimately have "extractImageIds (?d s) = extractImageIds (trim s)"
    using extract_append_no_close[of "rev (?t (rev (?d s)))" "trim s"] by (simp add: trim_def)
  then show ?thesis by (simp add: extract_dropWhile_ws)
qed

lemma length_filter_drop:
  "length (filter (\<lambda>i. i \<notin> set (drop n xs)) xs) \<le> n"
proof -
  have "filter (\<lambda>i. i \<notin> set (drop n xs)) (take n xs @ drop n xs)
      = filter (\<lambda>i. i \<notin> set (drop n xs)) (take n xs)"
    by (simp del: append_take_drop_id)
  then have "length (filter (\<lambda>i. i \<notin> set (drop n xs)) xs) \<le> length (take n xs)"
    by (metis append_take_drop_id length_filter_le)
  then show ?thesis by simp
qed

lemma token_ids_strip: "length (token_ids (strip_items n its)) \<le> n"
proof -
  have "token_ids (strip_items n its)
      = filter (\<lambda>i. \<forall>x\<in>set (drop n (token_ids its)). Tk i \<noteq> Tk x) (token_ids its)"
    unfolding strip_items_alt by (rule token_ids_filter) simp
  also have "\<dots> = filter (\<lambda>i. i \<notin> set (drop n (token_ids its))) (token_ids its)"
    by (rule filter_cong) auto
  finally show ?thesis by (simp add: length_filter_drop)
qed

lemma wf_items_strip: "wf_items its \<Longrightarrow> wf_items (strip_items n its)"
  unfolding strip_items_alt by (rule wf_items_filter) simp_all

lemma clean_few_ids:
  assumes "length (extractImageIds s) \<le> length urls" "urls \<noteq> []"
  shows "cleanOrphanedImages s urls = trim s"
proof -
  from assms(1) have "drop (length urls) (extractImageIds s) = []" by simp
  with fold_index_drop[of "length urls" "extractImageIds s" 0 s] assms(2)
  show ?thesis by (simp add: cleanOrphanedImages_def)
qed

lemma render_map_Ch: "render (map Ch s) = s" "plain (map Ch s) = s" "token_ids (map Ch s) = []"
  by (induction s) auto




text \<open>
  On an unambiguous body whose ids are all different, \<^verbatim>\<open>cleanOrphanedImages\<close> keeps the
  first tokens, as many as there are URLs, and drops the others.
\<close>

lemma cleanOrphanedImages_positional:
  assumes "wf_items its" "distinct (token_ids its)"
  shows "cleanOrphanedImages (render its) urls =
           (if urls = [] then plain its else trim (render (keep_tokens (length urls) its)))"
  using assms by (simp add: clean_render_no_urls clean_render_urls strip_items_distinct)




lemma image_tag_last: "image_tag x = butlast (image_tag x) @ '']''"
  by (simp add: image_tag_def butlast_append)
















section \<open>The claims about the codec\<close>

text \<open>
  C2.  The claim: \<^verbatim>\<open>cleanOrphanedImages\<close> removes exactly the tokens whose index among the
  ids of the body is at or beyond the number of URLs, keeps every earlier token, and trims
  what is left.  The code picks the ids by their index and then deletes every token of
  such an id: with one image and its token twice in the body, the second token has no URL
  at its index, and both tokens go, the first one too.  (The legacy migration writes such
  bodies: it gives two placeholders of one URL the same id.)  With no URL at all the
  result is returned untrimmed, unlike on the other path, where the space that a deleted
  token leaves at the end goes.  The example of the claim, two tokens of different ids and
  one URL, comes out as the claim says.
\<close>

theorem cleanOrphanedImages_repeated_id:
  "cleanOrphanedImages ''[IMAGE:img_1] and [IMAGE:img_1]'' [''http://x/1.png''] = ''and''
   \<and> extractImageIds ''[IMAGE:img_1] and [IMAGE:img_1]'' = [''img_1'', ''img_1'']
   \<and> cleanOrphanedImages ''x [IMAGE:a]'' [] = ''x ''
   \<and> cleanOrphanedImages ''x [IMAGE:a] [IMAGE:b]'' [''u1''] = ''x [IMAGE:a]''
   \<and> cleanOrphanedImages ''[IMAGE:a][IMAGE:b]'' [''u1''] = ''[IMAGE:a]''"
proof -
  have "cleanOrphanedImages ''[IMAGE:img_1] and [IMAGE:img_1]'' [''http://x/1.png''] = ''and''"
    by code_simp
  moreover have "extractImageIds ''[IMAGE:img_1] and [IMAGE:img_1]'' = [''img_1'', ''img_1'']"
    by code_simp
  moreover have "cleanOrphanedImages ''x [IMAGE:a]'' [] = ''x ''"
    by code_simp
  moreover have "cleanOrphanedImages ''x [IMAGE:a] [IMAGE:b]'' [''u1''] = ''x [IMAGE:a]''"
    by code_simp
  moreover have "cleanOrphanedImages ''[IMAGE:a][IMAGE:b]'' [''u1''] = ''[IMAGE:a]''"
    by code_simp
  ultimately show ?thesis by simp
qed




text \<open>
  C10, as amended.  On an unambiguous body, cleaning a second time with the same URLs
  changes nothing.
\<close>

theorem cleanOrphanedImages_idempotent_unambiguous:
  assumes "wf_items its"
  shows "cleanOrphanedImages (cleanOrphanedImages (render its) urls) urls
       = cleanOrphanedImages (render its) urls"
proof (cases "urls = []")
  case True
  have "wf_items (map Ch (plain its))" using assms by (simp add: wf_items_def render_map_Ch)
  then have "cleanOrphanedImages (render (map Ch (plain its))) [] = plain (map Ch (plain its))"
    by (rule clean_render_no_urls)
  with True assms show ?thesis by (simp add: clean_render_no_urls render_map_Ch)
next
  case False
  let ?its = "strip_items (length urls) its"
  have w: "wf_items ?its" using assms by (rule wf_items_strip)
  have 1: "cleanOrphanedImages (render its) urls = trim (render ?its)"
    using assms False by (rule clean_render_urls)
  have "extractImageIds (trim (render ?its)) = token_ids ?its"
    by (simp add: extract_trim extract_render[OF w])
  then have "length (extractImageIds (trim (render ?its))) \<le> length urls"
    by (simp add: token_ids_strip)
  then have "cleanOrphanedImages (trim (render ?its)) urls = trim (trim (render ?its))"
    using False by (rule clean_few_ids)
  with 1 show ?thesis by (simp add: trim_idem)
qed

theorem cleanOrphanedImages_idempotent_witness:
  "wf_items [Tk ''a'', Ch (CHR '' ''), Tk ''b'']
   \<and> cleanOrphanedImages ''[IMAGE:a] [IMAGE:b]'' [''u1''] = ''[IMAGE:a]''
   \<and> cleanOrphanedImages (cleanOrphanedImages ''[IMAGE:a] [IMAGE:b]'' [''u1'']) [''u1'']
       = cleanOrphanedImages ''[IMAGE:a] [IMAGE:b]'' [''u1'']"
proof -
  have w: "wf_items [Tk ''a'', Ch (CHR '' ''), Tk ''b'']"
    by (simp add: wf_items_def wf_id_def)
  have r: "render [Tk ''a'', Ch (CHR '' ''), Tk ''b''] = ''[IMAGE:a] [IMAGE:b]''"
    by (simp add: image_tag_def)
  have v: "cleanOrphanedImages ''[IMAGE:a] [IMAGE:b]'' [''u1''] = ''[IMAGE:a]''"
    by code_simp
  from cleanOrphanedImages_idempotent_unambiguous[OF w, of "[''u1'']"]
  have "cleanOrphanedImages (cleanOrphanedImages ''[IMAGE:a] [IMAGE:b]'' [''u1'']) [''u1'']
       = cleanOrphanedImages ''[IMAGE:a] [IMAGE:b]'' [''u1'']"
    unfolding r .
  with w v show ?thesis by blast
qed

text \<open>
  The claim as it stands, for every body, fails where deleting a token joins the text on
  its two sides into a new token: the first pass leaves \<^verbatim>\<open>[IMAGE:y]\<close>, the second deletes
  it.  The same with one URL: the first pass leaves two tokens, the second one.
\<close>

theorem cleanOrphanedImages_idempotent_counterexample:
  "cleanOrphanedImages (cleanOrphanedImages ''[IMA[IMAGE:x]GE:y]'' []) []
     \<noteq> cleanOrphanedImages ''[IMA[IMAGE:x]GE:y]'' []
   \<and> cleanOrphanedImages (cleanOrphanedImages ''[IMAGE:a][IMA[IMAGE:c]GE:b]'' [''u'']) [''u'']
     \<noteq> cleanOrphanedImages ''[IMAGE:a][IMA[IMAGE:c]GE:b]'' [''u'']"
proof -
  have 1: "cleanOrphanedImages ''[IMA[IMAGE:x]GE:y]'' [] = ''[IMAGE:y]''" by code_simp
  have 2: "cleanOrphanedImages ''[IMAGE:y]'' [] = []" by code_simp
  have 3: "cleanOrphanedImages ''[IMAGE:a][IMA[IMAGE:c]GE:b]'' [''u''] = ''[IMAGE:a][IMAGE:b]''"
    by code_simp
  have 4: "cleanOrphanedImages ''[IMAGE:a][IMAGE:b]'' [''u''] = ''[IMAGE:a]''" by code_simp
  show ?thesis unfolding 1 2 3 4 by simp
qed

section \<open>The component: what each operation changes\<close>

lemma localStorageKey_frame [simp]:
  "localStorageKey (st\<lparr>saveState := a\<rparr>) = localStorageKey st"
  by (simp add: localStorageKey_def has_user_def)

lemma save_success:
  assumes "has_user st" "\<not> setItemThrows st"
  shows "saveState (save silent v imgs st) = Saved"
    and "lastSavedValueRef (save silent v imgs st) = cleanOrphanedImages v (map url imgs)"
    and "lastSavedImagesRef (save silent v imgs st) = imgs"
    and "written (save silent v imgs st) = written st @
           [(localStorageKey st,
             \<lparr>stored_value = Some (cleanOrphanedImages v (map url imgs)),
              stored_images = Some imgs, stored_lastSavedAt = Some (clock st)\<rparr>)]"
    and "localStorage (save silent v imgs st) (localStorageKey st) =
           Some (Json \<lparr>stored_value = Some (cleanOrphanedImages v (map url imgs)),
              stored_images = Some imgs, stored_lastSavedAt = Some (clock st)\<rparr>)"
    and "syncDebounceRef (save silent v imgs st) =
           Some (clock st + 2000, cleanOrphanedImages v (map url imgs), map url imgs)"
  using assms
  by (simp_all add: save_def saveToLocalStorage_def Let_def autosave_effect_def)

lemma save_failure:
  assumes "has_user st" "setItemThrows st"
  shows "saveState (save silent v imgs st) = Error"
    and "written (save silent v imgs st) = written st"
    and "localStorage (save silent v imgs st) = localStorage st"
    and "lastSavedValueRef (save silent v imgs st) = lastSavedValueRef st"
    and "lastSavedImagesRef (save silent v imgs st) = lastSavedImagesRef st"
    and "syncDebounceRef (save silent v imgs st) = syncDebounceRef st"
    and "posts (save silent v imgs st) = posts st"
  using assms
  by (simp_all add: save_def saveToLocalStorage_def Let_def)

lemma save_guest:
  assumes "\<not> has_user st"
  shows "saveState (save silent v imgs st) = saveState st"
    and "written (save silent v imgs st) = written st"
    and "localStorage (save silent v imgs st) = localStorage st"
    and "syncDebounceRef (save silent v imgs st) = syncDebounceRef st"
  using assms by (simp_all add: save_def)

lemma fire_sync_saveState: "saveState (fire_sync ok st) = saveState st"
  by (simp add: fire_sync_def syncToServer_def Let_def split: option.split prod.split)


lemma build_imageData_Nil: "build_imageData ids [] = []"
  by (simp add: build_imageData_def filter_empty_conv split_beta)

lemma build_imageData_pairs:
  "build_imageData ids urls =
     map (\<lambda>(i, u). \<lparr>id' = i, url = u, description = []\<rparr>)
         (filter (\<lambda>(i, u). u \<noteq> []) (zip ids urls))"
proof (induction ids arbitrary: urls)
  case Nil
  then show ?case by (simp add: build_imageData_def)
next
  case (Cons i ids)
  show ?case
  proof (cases urls)
    case Nil
    then show ?thesis by (simp add: build_imageData_Nil)
  next
    case (Cons u us)
    have z: "zip (i # ids) [0 ..< length (i # ids)]
           = (i, 0) # map (\<lambda>(j, k). (j, Suc k)) (zip ids [0 ..< length ids])"
      by (simp add: upt_conv_Cons map_Suc_upt[symmetric] zip_map2 del: upt_Suc)
    have "build_imageData (i # ids) (u # us)
        = (if u \<noteq> [] then [\<lparr>id' = i, url = u, description = []\<rparr>] else [])
          @ build_imageData ids us"
      unfolding build_imageData_def z by (simp add: case_prod_unfold comp_def cong: if_cong)
    with Cons.IH[of us] Cons show ?thesis by simp
  qed
qed

lemma cancelledRuns_autosave [simp]:
  "cancelledRuns (autosave_effect st) = cancelledRuns st"
  by (simp add: autosave_effect_def Let_def)

lemma cancelledRuns_save [simp]: "cancelledRuns (save silent v imgs st) = cancelledRuns st"
  by (simp add: save_def saveToLocalStorage_def Let_def split: prod.split)

lemma cancelledRuns_syncToServer [simp]:
  "cancelledRuns (fst (syncToServer c us silent ok st)) = cancelledRuns st"
  by (simp add: syncToServer_def Let_def)

lemma cancelledRuns_apply [simp]:
  "cancelledRuns (apply_server_data sn su st) = cancelledRuns st"
  by (simp add: apply_server_data_def Let_def)

lemma cancelledRuns_finally [simp]:
  "cancelledRuns (finally_sync c st) = cancelledRuns st"
  by (simp add: finally_sync_def)

lemma cancelledRuns_load [simp]:
  "cancelledRuns (load_effect st) = cancelledRuns st"
  by (simp add: load_effect_def loadFromLocalStorage_def reset_state_def Let_def
      split: option.split slot.split)

lemma cancelledRuns_step: "cancelledRuns st \<subseteq> cancelledRuns (step e st)"
proof (cases e)
  case (Navigate u q)
  then show ?thesis by (auto simp: hydrate_def effect_cleanup_def)
next
  case (FetchArrives n r)
  then show ?thesis by (simp add: after_fetch_def Let_def split: fetch_result.split)
next
  case (JsonArrives n r)
  then show ?thesis by (simp add: after_json_def Let_def split: json_result.split)
qed (simp_all add: edit_def setValue_def setImages_def handleCancelEdit_def handleSaveEdit_def clearNote_def Let_def
       fire_autosave_def fire_sync_def fire_idle_def split: option.split list.split)

lemma cancelledRuns_run: "cancelledRuns st \<subseteq> cancelledRuns (run es st)"
  unfolding run_def
proof (induction es arbitrary: st)
  case Nil
  then show ?case by simp
next
  case (Cons e es)
  from cancelledRuns_step[of st e] Cons[of "step e st"] show ?case by auto
qed

lemma cancelled_after_fetch: "n \<in> cancelledRuns st \<Longrightarrow> after_fetch n r st = st"
  by (simp add: after_fetch_def finally_sync_def split: fetch_result.split)

lemma cancelled_after_json: "n \<in> cancelledRuns st \<Longrightarrow> after_json n r st = st"
  by (simp add: after_json_def finally_sync_def split: json_result.split)

lemma hydrate_cancels: "effectRun st \<in> cancelledRuns (hydrate u q st)"
  by (simp add: hydrate_def effect_cleanup_def)

lemma hydrate_timers:
  "debounceRef (hydrate u q st) = None" "syncDebounceRef (hydrate u q st) = None"
  by (simp_all add: hydrate_def effect_cleanup_def load_effect_def autosave_effect_def
      loadFromLocalStorage_def reset_state_def Let_def split: option.split slot.split)

lemma initial_state_simps [simp]:
  "user_id (initial_state u q s) = u" "questionId (initial_state u q s) = q"
  "value (initial_state u q s) = []" "images (initial_state u q s) = []"
  "initialLoaded (initial_state u q s) = False" "saveState (initial_state u q s) = Idle"
  "lastSavedAt (initial_state u q s) = None" "isEditing (initial_state u q s) = False"
  "lastSavedValueRef (initial_state u q s) = []" "lastSavedImagesRef (initial_state u q s) = []"
  "debounceRef (initial_state u q s) = None" "syncDebounceRef (initial_state u q s) = None"
  "idleTimers (initial_state u q s) = []" "effectRun (initial_state u q s) = 0"
  "cancelledRuns (initial_state u q s) = {}" "localStorage (initial_state u q s) = s"
  "setItemThrows (initial_state u q s) = False" "clock (initial_state u q s) = 0"
  "written (initial_state u q s) = []" "posts (initial_state u q s) = []"
  "toasts (initial_state u q s) = []"
  by (simp_all add: initial_state_def)

lemma autosave_effect_frame [simp]:
  "value (autosave_effect st) = value st" "images (autosave_effect st) = images st"
  "lastSavedValueRef (autosave_effect st) = lastSavedValueRef st"
  "lastSavedImagesRef (autosave_effect st) = lastSavedImagesRef st"
  "localStorage (autosave_effect st) = localStorage st"
  "written (autosave_effect st) = written st"
  "syncDebounceRef (autosave_effect st) = syncDebounceRef st"
  "posts (autosave_effect st) = posts st"
  by (simp_all add: autosave_effect_def Let_def)

lemma after_json_live:
  "n \<notin> cancelledRuns st \<Longrightarrow>
     after_json n (JsonBody (Some sn) (Some su)) st
     = autosave_effect ((apply_server_data sn su st)\<lparr>saveState := Idle, initialLoaded := True\<rparr>)"
  by (simp add: after_json_def finally_sync_def)

lemma apply_server_data_skip:
  "\<not> shouldUseServerData (localStorage st (localStorageKey st)) sn su \<or> (sn = [] \<and> su = [])
     \<Longrightarrow> apply_server_data sn su st = st"
  by (auto simp: apply_server_data_def Let_def)

lemma apply_server_data_use:
  assumes "shouldUseServerData (localStorage st (localStorageKey st)) sn su" "sn \<noteq> [] \<or> su \<noteq> []"
  shows "value (apply_server_data sn su st) = cleanOrphanedImages sn su"
    and "images (apply_server_data sn su st)
           = build_imageData (extractImageIds (cleanOrphanedImages sn su)) su"
    and "lastSavedValueRef (apply_server_data sn su st) = cleanOrphanedImages sn su"
    and "lastSavedImagesRef (apply_server_data sn su st)
           = build_imageData (extractImageIds (cleanOrphanedImages sn su)) su"
    and "\<not> setItemThrows st \<Longrightarrow>
         localStorage (apply_server_data sn su st) (localStorageKey st)
           = Some (Json \<lparr>stored_value = Some (cleanOrphanedImages sn su),
                stored_images = Some (build_imageData (extractImageIds (cleanOrphanedImages sn su)) su),
                stored_lastSavedAt = Some (clock st)\<rparr>)"
  using assms by (auto simp: apply_server_data_def Let_def)

lemma shouldUseServerData_same:
  "stored_value p = Some sn \<Longrightarrow>
   map url (case stored_images p of Some imgs \<Rightarrow> imgs | None \<Rightarrow> []) = su \<Longrightarrow>
     \<not> shouldUseServerData (Some (Json p)) sn su"
  by (simp add: shouldUseServerData_def)

lemma mount_facts:
  "cancelledRuns (mount u q s) = {}" "effectRun (mount u q s) = 0"
  "localStorage (mount u q s) = s" "setItemThrows (mount u q s) = False"
  "clock (mount u q s) = 0" "user_id (mount u q s) = u" "questionId (mount u q s) = q"
  "written (mount u q s) = []"
  by (simp_all add: mount_def load_effect_def autosave_effect_def loadFromLocalStorage_def
      reset_state_def Let_def split: option.split slot.split)

lemma key_u1_q1:
  "user_id st = Some ''u1'' \<Longrightarrow> questionId st = ''q1'' \<Longrightarrow> localStorageKey st = ''notes_u1_q1''"
  by (simp add: localStorageKey_def has_user_def)

lemma mount_value_cached:
  "value (mount (Some ''u1'') ''q1''
     [''notes_u1_q1'' \<mapsto> Json \<lparr>stored_value = Some ''hello'', stored_images = Some [],
        stored_lastSavedAt = None\<rparr>]) = ''hello''"
  by (simp add: mount_def load_effect_def loadFromLocalStorage_def
      reset_state_def Let_def localStorageKey_def has_user_def)





lemma edit_batched: "edit v imgs st = autosave_effect (st\<lparr>value := v, images := imgs\<rparr>)"
  by (simp add: edit_def setValue_def setImages_def autosave_effect_def hasChanges_def
      has_user_def Let_def)







lemma autosave_noop:
  "\<not> hasChanges st \<or> \<not> has_user st \<Longrightarrow> autosave_effect st = st\<lparr>debounceRef := None\<rparr>"
  by (auto simp: autosave_effect_def Let_def)

section \<open>The claim about the legacy migration\<close>

text \<open>Without a legacy placeholder in the value, the migration changes nothing.\<close>

lemma migrateLegacy_no_legacy:
  "\<not> test_legacy v \<Longrightarrow> migrateLegacy gen v imgs = (v, imgs)"
  by (simp add: migrateLegacy_def)

text \<open>
  C7.  The claim: migrating the output of a migration changes nothing.  The first group
  of the expression, \<^verbatim>\<open>[^|]+\<close>, runs over a \<^verbatim>\<open>]\<close>.  After the first migration of
  \<^verbatim>\<open>[IMAGE:http://x/1.png|photo] A|B [1]\<close> the new token, the text behind it up to the
  \<^verbatim>\<open>|\<close>, and the text from there to the next \<^verbatim>\<open>]\<close> match again as one legacy placeholder:
  the second migration swallows the text into the URL and the description of a new
  record.  (The effect runs again by itself when value and images change.)
\<close>

theorem migrateLegacy_not_idempotent:
  "migrateLegacy (\<lambda>k. ''img_1_a'') ''[IMAGE:http://x/1.png|photo] A|B [1]'' []
     = (''[IMAGE:img_1_a] A|B [1]'',
        [\<lparr>id' = ''img_1_a'', url = ''http://x/1.png'', description = ''photo''\<rparr>])
   \<and> migrateLegacy (\<lambda>k. ''img_2_b'') ''[IMAGE:img_1_a] A|B [1]''
        [\<lparr>id' = ''img_1_a'', url = ''http://x/1.png'', description = ''photo''\<rparr>]
     = (''[IMAGE:img_2_b]'',
        [\<lparr>id' = ''img_1_a'', url = ''http://x/1.png'', description = ''photo''\<rparr>,
         \<lparr>id' = ''img_2_b'', url = ''img_1_a] A'', description = ''B [1''\<rparr>])"
proof -
  have "migrateLegacy (\<lambda>k. ''img_1_a'') ''[IMAGE:http://x/1.png|photo] A|B [1]'' []
     = (''[IMAGE:img_1_a] A|B [1]'',
        [\<lparr>id' = ''img_1_a'', url = ''http://x/1.png'', description = ''photo''\<rparr>])"
    by code_simp
  moreover have "migrateLegacy (\<lambda>k. ''img_2_b'') ''[IMAGE:img_1_a] A|B [1]''
        [\<lparr>id' = ''img_1_a'', url = ''http://x/1.png'', description = ''photo''\<rparr>]
     = (''[IMAGE:img_2_b]'',
        [\<lparr>id' = ''img_1_a'', url = ''http://x/1.png'', description = ''photo''\<rparr>,
         \<lparr>id' = ''img_2_b'', url = ''img_1_a] A'', description = ''B [1''\<rparr>])"
    by code_simp
  ultimately show ?thesis by simp
qed

section \<open>The claims about the component\<close>

text \<open>
  C4, as amended.  A save by a signed-in user writes the local cache first.  When the
  write succeeds the save state is \<^verbatim>\<open>saved\<close>, the snapshot is the cleaned content with the
  images, and a remote write is scheduled, 2000 ms ahead.  When the write fails the save
  state is \<^verbatim>\<open>error\<close>, nothing is written, the snapshot and the pending remote write are as
  before and nothing is sent.  A save without a user writes and schedules nothing and
  leaves the save state alone.  When the remote write runs, whatever its outcome, the save
  state stays as it is.
\<close>

theorem save_local_first:
  "(has_user st \<and> \<not> setItemThrows st \<longrightarrow>
      saveState (save silent v imgs st) = Saved
      \<and> lastSavedValueRef (save silent v imgs st) = cleanOrphanedImages v (map url imgs)
      \<and> lastSavedImagesRef (save silent v imgs st) = imgs
      \<and> written (save silent v imgs st) = written st @
           [(localStorageKey st,
             \<lparr>stored_value = Some (cleanOrphanedImages v (map url imgs)),
              stored_images = Some imgs, stored_lastSavedAt = Some (clock st)\<rparr>)]
      \<and> syncDebounceRef (save silent v imgs st) =
           Some (clock st + 2000, cleanOrphanedImages v (map url imgs), map url imgs))
   \<and> (has_user st \<and> setItemThrows st \<longrightarrow>
      saveState (save silent v imgs st) = Error
      \<and> written (save silent v imgs st) = written st
      \<and> localStorage (save silent v imgs st) = localStorage st
      \<and> lastSavedValueRef (save silent v imgs st) = lastSavedValueRef st
      \<and> lastSavedImagesRef (save silent v imgs st) = lastSavedImagesRef st
      \<and> syncDebounceRef (save silent v imgs st) = syncDebounceRef st
      \<and> posts (save silent v imgs st) = posts st)
   \<and> (\<not> has_user st \<longrightarrow>
      saveState (save silent v imgs st) = saveState st
      \<and> written (save silent v imgs st) = written st
      \<and> localStorage (save silent v imgs st) = localStorage st
      \<and> syncDebounceRef (save silent v imgs st) = syncDebounceRef st)
   \<and> saveState (fire_sync ok st) = saveState st"
proof (intro conjI impI)
  assume "has_user st \<and> \<not> setItemThrows st"
  then have h: "has_user st" "\<not> setItemThrows st" by simp_all
  show "saveState (save silent v imgs st) = Saved"
    "lastSavedValueRef (save silent v imgs st) = cleanOrphanedImages v (map url imgs)"
    "lastSavedImagesRef (save silent v imgs st) = imgs"
    "written (save silent v imgs st) = written st @
           [(localStorageKey st,
             \<lparr>stored_value = Some (cleanOrphanedImages v (map url imgs)),
              stored_images = Some imgs, stored_lastSavedAt = Some (clock st)\<rparr>)]"
    "syncDebounceRef (save silent v imgs st) =
           Some (clock st + 2000, cleanOrphanedImages v (map url imgs), map url imgs)"
    by (rule save_success[OF h])+
next
  assume "has_user st \<and> setItemThrows st"
  then have h: "has_user st" "setItemThrows st" by simp_all
  show "saveState (save silent v imgs st) = Error"
    "written (save silent v imgs st) = written st"
    "localStorage (save silent v imgs st) = localStorage st"
    "lastSavedValueRef (save silent v imgs st) = lastSavedValueRef st"
    "lastSavedImagesRef (save silent v imgs st) = lastSavedImagesRef st"
    "syncDebounceRef (save silent v imgs st) = syncDebounceRef st"
    "posts (save silent v imgs st) = posts st"
    by (rule save_failure[OF h])+
next
  assume h: "\<not> has_user st"
  show "saveState (save silent v imgs st) = saveState st"
    "written (save silent v imgs st) = written st"
    "localStorage (save silent v imgs st) = localStorage st"
    "syncDebounceRef (save silent v imgs st) = syncDebounceRef st"
    by (rule save_guest[OF h])+
next
  show "saveState (fire_sync ok st) = saveState st" by (rule fire_sync_saveState)
qed

theorem save_local_first_witness:
  "has_user (initial_state (Some ''u1'') ''q1'' Map.empty)
   \<and> saveState (save True ''note'' [] (initial_state (Some ''u1'') ''q1'' Map.empty)) = Saved
   \<and> syncDebounceRef (save True ''note'' [] (initial_state (Some ''u1'') ''q1'' Map.empty))
       = Some (2000, ''note'', [])
   \<and> saveState (save True ''note'' []
        ((initial_state (Some ''u1'') ''q1'' Map.empty)\<lparr>setItemThrows := True\<rparr>)) = Error
   \<and> syncDebounceRef (save True ''note'' []
        ((initial_state (Some ''u1'') ''q1'' Map.empty)\<lparr>setItemThrows := True\<rparr>)) = None
   \<and> written (save False ''note'' [] (initial_state None ''q1'' Map.empty)) = []"
proof -
  let ?st = "initial_state (Some ''u1'') ''q1'' Map.empty"
  have u: "has_user ?st" "has_user (?st\<lparr>setItemThrows := True\<rparr>)"
    "\<not> has_user (initial_state None ''q1'' Map.empty)"
    by (simp_all add: has_user_def)
  have c: "cleanOrphanedImages ''note'' (map url []) = ''note''" by code_simp
  from save_local_first[of ?st True "''note''" "[]"] u c
  have 1: "saveState (save True ''note'' [] ?st) = Saved"
    "syncDebounceRef (save True ''note'' [] ?st) = Some (2000, ''note'', [])" by simp_all
  from save_local_first[of "?st\<lparr>setItemThrows := True\<rparr>" True "''note''" "[]"] u
  have 2: "saveState (save True ''note'' [] (?st\<lparr>setItemThrows := True\<rparr>)) = Error"
    "syncDebounceRef (save True ''note'' [] (?st\<lparr>setItemThrows := True\<rparr>)) = None"
    by simp_all
  from save_local_first[of "initial_state None ''q1'' Map.empty" False "''note''" "[]"] u
  have 3: "written (save False ''note'' [] (initial_state None ''q1'' Map.empty)) = []"
    by simp
  from u(1) 1 2 3 show ?thesis by blast
qed

text \<open>
  The claim as it stands says that every save writes the local cache.  Without a user,
  \<^verbatim>\<open>save\<close> returns at once (line 260).
\<close>

theorem save_guest_counterexample:
  "written (save False ''note'' [] (initial_state None ''q1'' Map.empty)) = []
   \<and> localStorage (save False ''note'' [] (initial_state None ''q1'' Map.empty)) = Map.empty
   \<and> saveState (save False ''note'' [] (initial_state None ''q1'' Map.empty)) = Idle"
proof -
  have "\<not> has_user (initial_state None ''q1'' Map.empty)" by (simp add: has_user_def)
  then show ?thesis by (simp add: save_guest)
qed


text \<open>
  C1, as amended.  The fetch of a run that is not cancelled resolves with a text and a
  list of URLs.  When the slot of the local cache holds the same text and its images the
  same URLs, or when the response is empty (no text and no URL), the value, the images,
  the snapshot and the local cache stay as they are.  Otherwise the value becomes the
  cleaned text, the images are rebuilt from it, the snapshot follows, and, when the write
  succeeds, the slot of the local cache holds both.
\<close>

theorem hydration_reconcile:
  assumes "n \<notin> cancelledRuns st"
  shows
   "(let st' = after_json n (JsonBody (Some sn) (Some su)) st in
     ((localStorage st (localStorageKey st) = Some (Json p) \<and> stored_value p = Some sn
        \<and> map url (case stored_images p of Some imgs \<Rightarrow> imgs | None \<Rightarrow> []) = su)
       \<or> (sn = [] \<and> su = []) \<longrightarrow>
        value st' = value st \<and> images st' = images st
        \<and> lastSavedValueRef st' = lastSavedValueRef st
        \<and> lastSavedImagesRef st' = lastSavedImagesRef st
        \<and> localStorage st' = localStorage st \<and> written st' = written st)
     \<and> (shouldUseServerData (localStorage st (localStorageKey st)) sn su
         \<and> (sn \<noteq> [] \<or> su \<noteq> []) \<longrightarrow>
        value st' = cleanOrphanedImages sn su
        \<and> images st' = build_imageData (extractImageIds (cleanOrphanedImages sn su)) su
        \<and> lastSavedValueRef st' = value st' \<and> lastSavedImagesRef st' = images st'
        \<and> (\<not> setItemThrows st \<longrightarrow>
             localStorage st' (localStorageKey st)
               = Some (Json \<lparr>stored_value = Some (value st'), stored_images = Some (images st'),
                    stored_lastSavedAt = Some (clock st)\<rparr>))))"
proof -
  let ?st = "after_json n (JsonBody (Some sn) (Some su)) st"
  have live: "?st = autosave_effect
      ((apply_server_data sn su st)\<lparr>saveState := Idle, initialLoaded := True\<rparr>)"
    using assms by (rule after_json_live)
  have same: "value ?st = value st \<and> images ?st = images st
        \<and> lastSavedValueRef ?st = lastSavedValueRef st
        \<and> lastSavedImagesRef ?st = lastSavedImagesRef st
        \<and> localStorage ?st = localStorage st \<and> written ?st = written st"
    if "(localStorage st (localStorageKey st) = Some (Json p) \<and> stored_value p = Some sn
        \<and> map url (case stored_images p of Some imgs \<Rightarrow> imgs | None \<Rightarrow> []) = su)
       \<or> (sn = [] \<and> su = [])"
  proof -
    from that have "\<not> shouldUseServerData (localStorage st (localStorageKey st)) sn su
        \<or> (sn = [] \<and> su = [])"
      using shouldUseServerData_same[of p sn su] by auto
    then have "apply_server_data sn su st = st" by (rule apply_server_data_skip)
    then show ?thesis unfolding live by simp
  qed
  have used: "value ?st = cleanOrphanedImages sn su
        \<and> images ?st = build_imageData (extractImageIds (cleanOrphanedImages sn su)) su
        \<and> lastSavedValueRef ?st = value ?st \<and> lastSavedImagesRef ?st = images ?st
        \<and> (\<not> setItemThrows st \<longrightarrow>
             localStorage ?st (localStorageKey st)
               = Some (Json \<lparr>stored_value = Some (value ?st), stored_images = Some (images ?st),
                    stored_lastSavedAt = Some (clock st)\<rparr>))"
    if "shouldUseServerData (localStorage st (localStorageKey st)) sn su \<and> (sn \<noteq> [] \<or> su \<noteq> [])"
  proof -
    from that have u: "shouldUseServerData (localStorage st (localStorageKey st)) sn su"
      "sn \<noteq> [] \<or> su \<noteq> []" by simp_all
    show ?thesis unfolding live by (simp add: apply_server_data_use[OF u])
  qed
  from same used show ?thesis unfolding Let_def by blast
qed

theorem hydration_reconcile_witness:
  "0 \<notin> cancelledRuns (mount (Some ''u1'') ''q1''
     [''notes_u1_q1'' \<mapsto> Json \<lparr>stored_value = Some ''hello'', stored_images = Some [],
        stored_lastSavedAt = None\<rparr>])
   \<and> value (after_json 0 (JsonBody (Some ''hello'') (Some []))
       (mount (Some ''u1'') ''q1''
         [''notes_u1_q1'' \<mapsto> Json \<lparr>stored_value = Some ''hello'', stored_images = Some [],
            stored_lastSavedAt = None\<rparr>])) = ''hello''
   \<and> written (after_json 0 (JsonBody (Some ''hello'') (Some []))
       (mount (Some ''u1'') ''q1''
         [''notes_u1_q1'' \<mapsto> Json \<lparr>stored_value = Some ''hello'', stored_images = Some [],
            stored_lastSavedAt = None\<rparr>])) = []
   \<and> value (after_json 0 (JsonBody (Some ''world'') (Some []))
       (mount (Some ''u1'') ''q1'' Map.empty)) = ''world''
   \<and> localStorage (after_json 0 (JsonBody (Some ''world'') (Some []))
       (mount (Some ''u1'') ''q1'' Map.empty)) ''notes_u1_q1''
       = Some (Json \<lparr>stored_value = Some ''world'', stored_images = Some [],
            stored_lastSavedAt = Some 0\<rparr>)"
proof -
  let ?h = "\<lparr>stored_value = Some ''hello'', stored_images = Some [], stored_lastSavedAt = None\<rparr>"
  let ?m1 = "mount (Some ''u1'') ''q1'' [''notes_u1_q1'' \<mapsto> Json ?h]"
  let ?m0 = "mount (Some ''u1'') ''q1'' Map.empty"
  have c1: "0 \<notin> cancelledRuns ?m1" and c0: "0 \<notin> cancelledRuns ?m0"
    by (simp_all add: mount_facts)
  have k1: "localStorageKey ?m1 = ''notes_u1_q1''" and k0: "localStorageKey ?m0 = ''notes_u1_q1''"
    by (simp_all add: key_u1_q1 mount_facts)
  have w: "cleanOrphanedImages ''world'' [] = ''world''" by code_simp
  from hydration_reconcile[OF c1, of "''hello''" "[]" ?h]
  have 1: "value (after_json 0 (JsonBody (Some ''hello'') (Some [])) ?m1) = ''hello''"
    "written (after_json 0 (JsonBody (Some ''hello'') (Some [])) ?m1) = []"
    by (simp_all add: Let_def k1 mount_facts mount_value_cached)
  from hydration_reconcile[OF c0, of "''world''" "[]"]
  have 2: "value (after_json 0 (JsonBody (Some ''world'') (Some [])) ?m0) = ''world''"
    "localStorage (after_json 0 (JsonBody (Some ''world'') (Some [])) ?m0) ''notes_u1_q1''
       = Some (Json \<lparr>stored_value = Some ''world'', stored_images = Some [],
            stored_lastSavedAt = Some 0\<rparr>)"
    by (simp_all add: Let_def k0 mount_facts shouldUseServerData_def w build_imageData_Nil)
  from c1 1 2 show ?thesis by blast
qed

text \<open>
  The claim as it stands says that remote data that differ from the local cache
  overwrite it.  An empty response differs from a cache that holds \<^verbatim>\<open>hello\<close>, and is not
  used (the guard of line 165): the value and the cache keep \<^verbatim>\<open>hello\<close>.  And what is
  written is the cleaned text, not the text of the response.
\<close>

theorem hydration_empty_remote_counterexample:
  "shouldUseServerData
     (Some (Json \<lparr>stored_value = Some ''hello'', stored_images = Some [],
        stored_lastSavedAt = None\<rparr>)) [] []
   \<and> value (after_json 0 (JsonBody (Some []) (Some []))
       (mount (Some ''u1'') ''q1''
         [''notes_u1_q1'' \<mapsto> Json \<lparr>stored_value = Some ''hello'', stored_images = Some [],
            stored_lastSavedAt = None\<rparr>])) = ''hello''
   \<and> localStorage (after_json 0 (JsonBody (Some []) (Some []))
       (mount (Some ''u1'') ''q1''
         [''notes_u1_q1'' \<mapsto> Json \<lparr>stored_value = Some ''hello'', stored_images = Some [],
            stored_lastSavedAt = None\<rparr>])) ''notes_u1_q1''
       = Some (Json \<lparr>stored_value = Some ''hello'', stored_images = Some [],
            stored_lastSavedAt = None\<rparr>)
   \<and> value (after_json 0 (JsonBody (Some ''[IMAGE:a][IMAGE:b]'') (Some [''u'']))
       (mount (Some ''u1'') ''q1'' Map.empty)) = ''[IMAGE:a]''"
proof -
  let ?h = "\<lparr>stored_value = Some ''hello'', stored_images = Some [], stored_lastSavedAt = None\<rparr>"
  let ?m1 = "mount (Some ''u1'') ''q1'' [''notes_u1_q1'' \<mapsto> Json ?h]"
  let ?m0 = "mount (Some ''u1'') ''q1'' Map.empty"
  have c1: "0 \<notin> cancelledRuns ?m1" and c0: "0 \<notin> cancelledRuns ?m0"
    by (simp_all add: mount_facts)
  have k0: "localStorageKey ?m0 = ''notes_u1_q1''"
    by (simp add: key_u1_q1 mount_facts)
  have s: "shouldUseServerData (Some (Json ?h)) [] []" by (simp add: shouldUseServerData_def)
  have a: "apply_server_data [] [] ?m1 = ?m1" by (rule apply_server_data_skip) simp
  have 1: "value (after_json 0 (JsonBody (Some []) (Some [])) ?m1) = ''hello''"
    "localStorage (after_json 0 (JsonBody (Some []) (Some [])) ?m1) ''notes_u1_q1'' = Some (Json ?h)"
    unfolding after_json_live[OF c1] a by (simp_all add: mount_facts mount_value_cached)
  have w: "cleanOrphanedImages ''[IMAGE:a][IMAGE:b]'' [''u''] = ''[IMAGE:a]''" by code_simp
  have u: "shouldUseServerData (localStorage ?m0 (localStorageKey ?m0)) ''[IMAGE:a][IMAGE:b]'' [''u'']"
    by (simp add: mount_facts shouldUseServerData_def)
  have 2: "value (after_json 0 (JsonBody (Some ''[IMAGE:a][IMAGE:b]'') (Some [''u''])) ?m0) = ''[IMAGE:a]''"
    unfolding after_json_live[OF c0] by (simp add: apply_server_data_use(1)[OF u] w)
  from s 1 2 show ?thesis by blast
qed

text \<open>
  C6.  The registry that hydration rebuilds pairs the ids of the cleaned text with the
  URLs of the response, index by index, as far as both go, and keeps the pairs whose URL
  is not empty.  For the text \<^verbatim>\<open>[IMAGE:temp]\<close> with the one URL \<^verbatim>\<open>http://x/1.png\<close> and an
  empty cache, the value is \<^verbatim>\<open>[IMAGE:temp]\<close> and the registry holds the record of
  \<^verbatim>\<open>temp\<close> with that URL.
\<close>

theorem reconcile_registry:
  "build_imageData ids urls =
     map (\<lambda>(i, u). \<lparr>id' = i, url = u, description = []\<rparr>)
         (filter (\<lambda>(i, u). u \<noteq> []) (zip ids urls))
   \<and> (n \<notin> cancelledRuns st
       \<and> shouldUseServerData (localStorage st (localStorageKey st)) sn su
       \<and> (sn \<noteq> [] \<or> su \<noteq> []) \<longrightarrow>
        value (after_json n (JsonBody (Some sn) (Some su)) st) = cleanOrphanedImages sn su
        \<and> images (after_json n (JsonBody (Some sn) (Some su)) st) =
            map (\<lambda>(i, u). \<lparr>id' = i, url = u, description = []\<rparr>)
              (filter (\<lambda>(i, u). u \<noteq> [])
                 (zip (extractImageIds (cleanOrphanedImages sn su)) su)))
   \<and> value (after_json 0 (JsonBody (Some ''[IMAGE:temp]'') (Some [''http://x/1.png'']))
        (mount (Some ''u1'') ''q1'' Map.empty)) = ''[IMAGE:temp]''
   \<and> images (after_json 0 (JsonBody (Some ''[IMAGE:temp]'') (Some [''http://x/1.png'']))
        (mount (Some ''u1'') ''q1'' Map.empty))
       = [\<lparr>id' = ''temp'', url = ''http://x/1.png'', description = []\<rparr>]"
proof -
  have pairs: "build_imageData ids urls =
     map (\<lambda>(i, u). \<lparr>id' = i, url = u, description = []\<rparr>)
         (filter (\<lambda>(i, u). u \<noteq> []) (zip ids urls))" for ids urls
    by (rule build_imageData_pairs)
  have live: "value (after_json n (JsonBody (Some sn) (Some su)) st) = cleanOrphanedImages sn su
        \<and> images (after_json n (JsonBody (Some sn) (Some su)) st) =
            map (\<lambda>(i, u). \<lparr>id' = i, url = u, description = []\<rparr>)
              (filter (\<lambda>(i, u). u \<noteq> [])
                 (zip (extractImageIds (cleanOrphanedImages sn su)) su))"
    if "n \<notin> cancelledRuns st"
      "shouldUseServerData (localStorage st (localStorageKey st)) sn su" "sn \<noteq> [] \<or> su \<noteq> []"
    for n st sn su
    unfolding after_json_live[OF that(1)]
    by (simp add: apply_server_data_use[OF that(2,3)] pairs)
  let ?m0 = "mount (Some ''u1'') ''q1'' Map.empty"
  have c0: "0 \<notin> cancelledRuns ?m0" by (simp add: mount_facts)
  have u: "shouldUseServerData (localStorage ?m0 (localStorageKey ?m0)) ''[IMAGE:temp]'' [''http://x/1.png'']"
    by (simp add: mount_facts shouldUseServerData_def)
  have w: "cleanOrphanedImages ''[IMAGE:temp]'' [''http://x/1.png''] = ''[IMAGE:temp]''"
    by code_simp
  have e: "extractImageIds ''[IMAGE:temp]'' = [''temp'']" by code_simp
  from live[OF c0 u] have ex:
    "value (after_json 0 (JsonBody (Some ''[IMAGE:temp]'') (Some [''http://x/1.png''])) ?m0)
       = ''[IMAGE:temp]''"
    "images (after_json 0 (JsonBody (Some ''[IMAGE:temp]'') (Some [''http://x/1.png''])) ?m0)
       = [\<lparr>id' = ''temp'', url = ''http://x/1.png'', description = []\<rparr>]"
    by (simp_all add: w e del: extractImageIds.simps)
  from pairs live ex show ?thesis by blast
qed

theorem reconcile_registry_witness:
  "0 \<notin> cancelledRuns (mount (Some ''u1'') ''q1'' Map.empty)
   \<and> build_imageData [''a'', ''b'', ''c''] [''u1'', '''']
       = [\<lparr>id' = ''a'', url = ''u1'', description = []\<rparr>]
   \<and> images (after_json 0 (JsonBody (Some ''x [IMAGE:p] y [IMAGE:q]'') (Some [''u1'', ''u2'']))
        (mount (Some ''u1'') ''q1'' Map.empty))
       = [\<lparr>id' = ''p'', url = ''u1'', description = []\<rparr>,
          \<lparr>id' = ''q'', url = ''u2'', description = []\<rparr>]"
proof -
  let ?m0 = "mount (Some ''u1'') ''q1'' Map.empty"
  have c0: "0 \<notin> cancelledRuns ?m0" by (simp add: mount_facts)
  have u: "shouldUseServerData (localStorage ?m0 (localStorageKey ?m0))
       ''x [IMAGE:p] y [IMAGE:q]'' [''u1'', ''u2'']"
    by (simp add: mount_facts shouldUseServerData_def)
  have w: "cleanOrphanedImages ''x [IMAGE:p] y [IMAGE:q]'' [''u1'', ''u2'']
       = ''x [IMAGE:p] y [IMAGE:q]''" by code_simp
  have e: "extractImageIds ''x [IMAGE:p] y [IMAGE:q]'' = [''p'', ''q'']" by code_simp
  from reconcile_registry[of "[''a'', ''b'', ''c'']" "[''u1'', '''']"]
  have 1: "build_imageData [''a'', ''b'', ''c''] [''u1'', '''']
       = [\<lparr>id' = ''a'', url = ''u1'', description = []\<rparr>]" by simp
  from reconcile_registry[of _ _ 0 ?m0 "''x [IMAGE:p] y [IMAGE:q]''" "[''u1'', ''u2'']"] c0 u
  have 2: "images (after_json 0 (JsonBody (Some ''x [IMAGE:p] y [IMAGE:q]'') (Some [''u1'', ''u2''])) ?m0)
       = [\<lparr>id' = ''p'', url = ''u1'', description = []\<rparr>,
          \<lparr>id' = ''q'', url = ''u2'', description = []\<rparr>]"
    by (simp add: w e del: extractImageIds.simps)
  from c0 1 2 show ?thesis by blast
qed

text \<open>
  C5.  The question or the user changes while the fetch of the current run is under way.
  Both debounce timers are cleared, the run is cancelled and stays so whatever happens
  next, and when its fetch or its body arrives, at any later time, nothing changes: not
  the state in memory, not the local cache.
\<close>

theorem stale_fetch_discarded:
  "debounceRef (hydrate u q st) = None \<and> syncDebounceRef (hydrate u q st) = None
   \<and> effectRun st \<in> cancelledRuns (run es (hydrate u q st))
   \<and> after_fetch (effectRun st) r (run es (hydrate u q st)) = run es (hydrate u q st)
   \<and> after_json (effectRun st) j (run es (hydrate u q st)) = run es (hydrate u q st)"
proof -
  have c: "effectRun st \<in> cancelledRuns (run es (hydrate u q st))"
    using hydrate_cancels[of st u q] cancelledRuns_run[of "hydrate u q st" es] by blast
  from c have "after_fetch (effectRun st) r (run es (hydrate u q st)) = run es (hydrate u q st)"
    by (rule cancelled_after_fetch)
  moreover from c
  have "after_json (effectRun st) j (run es (hydrate u q st)) = run es (hydrate u q st)"
    by (rule cancelled_after_json)
  ultimately show ?thesis using c by (simp add: hydrate_timers)
qed

theorem stale_fetch_discarded_witness:
  "debounceRef (hydrate (Some ''u1'') ''q2'' (mount (Some ''u1'') ''q1'' Map.empty)) = None
   \<and> syncDebounceRef (hydrate (Some ''u1'') ''q2'' (mount (Some ''u1'') ''q1'' Map.empty)) = None
   \<and> 0 \<in> cancelledRuns
         (run [Tick 10] (hydrate (Some ''u1'') ''q2'' (mount (Some ''u1'') ''q1'' Map.empty)))
   \<and> after_fetch 0 (FetchResponse True)
        (run [Tick 10] (hydrate (Some ''u1'') ''q2'' (mount (Some ''u1'') ''q1'' Map.empty)))
       = run [Tick 10] (hydrate (Some ''u1'') ''q2'' (mount (Some ''u1'') ''q1'' Map.empty))
   \<and> after_json 0 (JsonBody (Some ''note of q1'') (Some []))
        (run [Tick 10] (hydrate (Some ''u1'') ''q2'' (mount (Some ''u1'') ''q1'' Map.empty)))
       = run [Tick 10] (hydrate (Some ''u1'') ''q2'' (mount (Some ''u1'') ''q1'' Map.empty))"
proof -
  have e: "effectRun (mount (Some ''u1'') ''q1'' Map.empty) = 0" by (simp add: mount_facts)
  from stale_fetch_discarded[of "Some ''u1''" "''q2''" "mount (Some ''u1'') ''q1'' Map.empty"
      "[Tick 10]" "FetchResponse True" "JsonBody (Some ''note of q1'') (Some [])"]
  show ?thesis unfolding e .
qed






text \<open>
  The claim as it stands has the autosave do nothing whenever the content equals the
  snapshot.  A signed-in user types \<^verbatim>\<open>note\<close> into a loaded, empty note, opens the editor and
  saves by hand at once: the manual save writes the note and makes the snapshot equal to
  the content, and the text is as it was, so the autosave effect does not run again and
  the timer of the edit stays pending.  500 ms after the edit it runs, with the content
  equal to the snapshot: it writes the same note a second time and puts the remote write
  off, from 2000 to 2500.
\<close>

theorem autosave_after_manual_save_counterexample:
  "value (run [FetchArrives 0 (FetchResponse True), JsonArrives 0 (JsonBody (Some []) (Some [])),
               Edit ''note'' [], ClickEdit, ClickSave, Tick 500]
             (mount (Some ''u1'') ''q1'' Map.empty)) = ''note''
   \<and> \<not> hasChanges
         (run [FetchArrives 0 (FetchResponse True), JsonArrives 0 (JsonBody (Some []) (Some [])),
               Edit ''note'' [], ClickEdit, ClickSave, Tick 500]
             (mount (Some ''u1'') ''q1'' Map.empty))
   \<and> has_user
         (run [FetchArrives 0 (FetchResponse True), JsonArrives 0 (JsonBody (Some []) (Some [])),
               Edit ''note'' [], ClickEdit, ClickSave, Tick 500]
             (mount (Some ''u1'') ''q1'' Map.empty))
   \<and> written
         (run [FetchArrives 0 (FetchResponse True), JsonArrives 0 (JsonBody (Some []) (Some [])),
               Edit ''note'' [], ClickEdit, ClickSave, Tick 500]
             (mount (Some ''u1'') ''q1'' Map.empty))
       = [(''notes_u1_q1'',
           \<lparr>stored_value = Some ''note'', stored_images = Some [], stored_lastSavedAt = Some 0\<rparr>)]
   \<and> syncDebounceRef
         (run [FetchArrives 0 (FetchResponse True), JsonArrives 0 (JsonBody (Some []) (Some [])),
               Edit ''note'' [], ClickEdit, ClickSave, Tick 500]
             (mount (Some ''u1'') ''q1'' Map.empty))
       = Some (2000, ''note'', [])
   \<and> written
         (run [FetchArrives 0 (FetchResponse True), JsonArrives 0 (JsonBody (Some []) (Some [])),
               Edit ''note'' [], ClickEdit, ClickSave, Tick 500, AutosaveTimer]
             (mount (Some ''u1'') ''q1'' Map.empty))
       = [(''notes_u1_q1'',
           \<lparr>stored_value = Some ''note'', stored_images = Some [], stored_lastSavedAt = Some 0\<rparr>),
          (''notes_u1_q1'',
           \<lparr>stored_value = Some ''note'', stored_images = Some [], stored_lastSavedAt = Some 500\<rparr>)]
   \<and> syncDebounceRef
         (run [FetchArrives 0 (FetchResponse True), JsonArrives 0 (JsonBody (Some []) (Some [])),
               Edit ''note'' [], ClickEdit, ClickSave, Tick 500, AutosaveTimer]
             (mount (Some ''u1'') ''q1'' Map.empty))
       = Some (2500, ''note'', [])"
proof -
  let ?M = "mount (Some ''u1'') ''q1'' Map.empty"
  let ?k = "''notes_u1_q1''"
  let ?n0 = "\<lparr>stored_value = Some ''note'', stored_images = Some [], stored_lastSavedAt = Some 0\<rparr>"
  let ?n1 = "\<lparr>stored_value = Some ''note'', stored_images = Some [], stored_lastSavedAt = Some 500\<rparr>"
  have c: "cleanOrphanedImages ''note'' [] = ''note''" by code_simp
  have m: "?M = (initial_state (Some ''u1'') ''q1'' Map.empty)\<lparr>saveState := Loading\<rparr>"
    by (simp add: mount_def load_effect_def loadFromLocalStorage_def reset_state_def
        autosave_effect_def initial_state_def localStorageKey_def has_user_def Let_def)
  let ?L = "(initial_state (Some ''u1'') ''q1'' Map.empty)\<lparr>initialLoaded := True\<rparr>"
  have l: "run [FetchArrives 0 (FetchResponse True), JsonArrives 0 (JsonBody (Some []) (Some []))] ?M
      = ?L"
    unfolding m
    by (simp add: run_def after_fetch_def after_json_def finally_sync_def apply_server_data_def
        shouldUseServerData_def autosave_effect_def hasChanges_def initial_state_def
        localStorageKey_def has_user_def Let_def)
  let ?E = "?L\<lparr>value := ''note'', images := [], debounceRef := Some (500, ''note'', [])\<rparr>"
  have e: "run [Edit ''note'' []] ?L = ?E"
    by (simp add: run_def edit_batched autosave_effect_def hasChanges_def initial_state_def
        has_user_def Let_def)
  let ?V = "?E\<lparr>isEditing := False, saveState := Saved,
               localStorage := [?k \<mapsto> Json ?n0], written := [(?k, ?n0)],
               lastSavedAt := Some 0, lastSavedValueRef := ''note'', lastSavedImagesRef := [],
               toasts := [''Sauvegarde''], syncDebounceRef := Some (2000, ''note'', []),
               idleTimers := [1200], clock := 500\<rparr>"
  have v: "run [ClickEdit, ClickSave, Tick 500] ?E = ?V"
    by (simp add: run_def handleSaveEdit_def save_def saveToLocalStorage_def c
        initial_state_def localStorageKey_def has_user_def Let_def)
  have t: "run [FetchArrives 0 (FetchResponse True), JsonArrives 0 (JsonBody (Some []) (Some [])),
               Edit ''note'' [], ClickEdit, ClickSave, Tick 500] ?M = ?V"
    using l e v by (simp add: run_def)
  have a: "written (step AutosaveTimer ?V) = [(?k, ?n0), (?k, ?n1)]"
    "syncDebounceRef (step AutosaveTimer ?V) = Some (2500, ''note'', [])"
    by (simp_all add: fire_autosave_def save_def saveToLocalStorage_def c
        initial_state_def localStorageKey_def has_user_def Let_def)
  have t': "run [FetchArrives 0 (FetchResponse True), JsonArrives 0 (JsonBody (Some []) (Some [])),
               Edit ''note'' [], ClickEdit, ClickSave, Tick 500, AutosaveTimer] ?M
        = step AutosaveTimer ?V"
    using t by (simp add: run_def)
  have f: "value ?V = ''note''" "\<not> hasChanges ?V" "has_user ?V"
    "written ?V = [(?k, ?n0)]" "syncDebounceRef ?V = Some (2000, ''note'', [])"
    by (simp_all add: hasChanges_def has_user_def initial_state_def)
  show ?thesis unfolding t t' using a f by simp
qed

end
